theory Spec2Isabelle
  imports Main "HOL-Library.Char_ord" "HOL-Library.List_Lexorder"
    "HOL-Library.Product_Lexorder"
begin

section \<open>Messages, codec and schema registry\<close>

record message =
  msg_type :: string
  msg_api :: "string option"
  msg_fields :: "(string \<times> string) list"

datatype error = KeyError | InvalidError | OSError

record env =
  schemas :: "string \<Rightarrow> (message \<Rightarrow> message option) option"
  api :: string
  dumps :: "message \<Rightarrow> string"
  loads :: "string \<Rightarrow> message option"

section \<open>The file system under the store's base directory\<close>

datatype filename = Record nat string | Temp nat

fun number :: "filename \<Rightarrow> nat" where
  "number (Record n flags) = n"
| "number (Temp n) = n"

fun endswith_tmp :: "filename \<Rightarrow> bool" where
  "endswith_tmp (Record n flags) = False"
| "endswith_tmp (Temp n) = True"

type_synonym path = "nat \<times> filename"

record stored_file =
  st_ino :: nat
  content :: string

record store =
  p_accepted_types :: "string list"
  p_sequence :: nat
  p_pending_offset :: nat
  p_server_sequence :: nat
  p_server_uuid :: "string option"
  p_exchange_token :: "string option"
  directory_size :: nat
  shards :: "nat list"
  files :: "(path \<times> stored_file) list"
  next_ino :: nat

definition HELD :: char where
  "HELD = CHR ''h''"

definition BROKEN :: char where
  "BROKEN = CHR ''b''"

definition listdir :: "store \<Rightarrow> nat \<Rightarrow> filename list" where
  "listdir st d = map (\<lambda>e. snd (fst e)) (filter (\<lambda>e. fst (fst e) = d) (files st))"

definition lookup :: "store \<Rightarrow> path \<Rightarrow> stored_file option" where
  "lookup st p = map_of (files st) p"

definition stat_ino :: "store \<Rightarrow> path \<Rightarrow> nat option" where
  "stat_ino st p = map_option st_ino (lookup st p)"

definition get_content :: "store \<Rightarrow> path \<Rightarrow> string" where
  "get_content st p = (case lookup st p of Some f \<Rightarrow> content f | None \<Rightarrow> [])"

definition unlink :: "path \<Rightarrow> store \<Rightarrow> store" where
  "unlink p st = st\<lparr>files := filter (\<lambda>e. fst e \<noteq> p) (files st)\<rparr>"

definition rmdir :: "nat \<Rightarrow> store \<Rightarrow> store" where
  "rmdir d st = st\<lparr>shards := filter (\<lambda>x. x \<noteq> d) (shards st)\<rparr>"

definition makedirs :: "nat \<Rightarrow> store \<Rightarrow> store" where
  "makedirs d st = st\<lparr>shards := shards st @ [d]\<rparr>"

definition rename :: "path \<Rightarrow> path \<Rightarrow> store \<Rightarrow> store" where
  "rename src dst st =
     (if src = dst \<or> lookup st src = None then st
      else st\<lparr>files := map (\<lambda>e. if fst e = src then (dst, snd e) else e)
                          (filter (\<lambda>e. fst e \<noteq> dst) (files st))\<rparr>)"

definition write_file :: "path \<Rightarrow> string \<Rightarrow> store \<Rightarrow> store" where
  "write_file p data st =
     (case lookup st p of
        Some f \<Rightarrow> st\<lparr>files := map (\<lambda>e. if fst e = p then (p, (snd e)\<lparr>content := data\<rparr>) else e)
                                 (files st)\<rparr>
      | None \<Rightarrow> st\<lparr>files := files st @ [(p, \<lparr>st_ino = next_ino st, content = data\<rparr>)],
                   next_ino := Suc (next_ino st)\<rparr>)"

section \<open>The message store\<close>

definition get_accepted_types :: "store \<Rightarrow> string list" where
  "get_accepted_types st = p_accepted_types st"

definition accepts :: "store \<Rightarrow> string \<Rightarrow> bool" where
  "accepts st type = (type \<in> set (get_accepted_types st))"

definition get_pending_offset :: "store \<Rightarrow> nat" where
  "get_pending_offset st = p_pending_offset st"

definition set_pending_offset :: "nat \<Rightarrow> store \<Rightarrow> store" where
  "set_pending_offset val st = st\<lparr>p_pending_offset := val\<rparr>"

definition get_sorted_dirs :: "store \<Rightarrow> nat list" where
  "get_sorted_dirs st = sort (shards st)"

definition get_sorted_filenames :: "store \<Rightarrow> nat \<Rightarrow> filename list" where
  "get_sorted_filenames st dir =
     sort_key number (filter (\<lambda>x. \<not> endswith_tmp x) (listdir st dir))"

fun get_flags :: "path \<Rightarrow> string" where
  "get_flags (d, Record n flags) = flags"
| "get_flags (d, Temp n) = []"

definition set_flags :: "path \<Rightarrow> string \<Rightarrow> store \<Rightarrow> path \<times> store" where
  "set_flags path flags st =
     (let new_path = (fst path, Record (number (snd path)) (sort (remdups flags)))
      in (new_path, rename path new_path st))"

definition add_flags :: "path \<Rightarrow> char \<Rightarrow> store \<Rightarrow> store" where
  "add_flags path flag st = snd (set_flags path (get_flags path @ [flag]) st)"

definition yielded :: "string \<Rightarrow> path \<Rightarrow> bool" where
  "yielded exclude p = (exclude = [] \<or> set exclude \<inter> set (get_flags p) = {})"

definition walk_messages ::
  "string \<Rightarrow> (path \<Rightarrow> 's \<Rightarrow> 's) \<Rightarrow> ('s \<Rightarrow> store) \<Rightarrow> 's \<Rightarrow> 's" where
  "walk_messages exclude body store_of s0 =
     fold (\<lambda>message_dir s.
             fold (\<lambda>filename s.
                     if yielded exclude (message_dir, filename)
                     then body (message_dir, filename) s else s)
                  (get_sorted_filenames (store_of s) message_dir) s)
          (get_sorted_dirs (store_of s0)) s0"

definition walk_pending_messages ::
  "(path \<Rightarrow> 's \<Rightarrow> 's) \<Rightarrow> ('s \<Rightarrow> store) \<Rightarrow> 's \<Rightarrow> 's" where
  "walk_pending_messages body store_of s0 =
     (let pending_offset = get_pending_offset (store_of s0)
      in snd (walk_messages [HELD, BROKEN]
                (\<lambda>filename (i, s). (Suc i, if i \<ge> pending_offset then body filename s else s))
                (store_of \<circ> snd) (0, s0)))"

definition count_pending_messages :: "store \<Rightarrow> nat" where
  "count_pending_messages st =
     fst (walk_pending_messages (\<lambda>x (n, st). (n + 1, st)) snd (0, st))"

definition reached :: "nat option \<Rightarrow> 'a list \<Rightarrow> bool" where
  "reached max_count messages = (case max_count of None \<Rightarrow> False | Some m \<Rightarrow> length messages \<ge> m)"

definition get_pending_step ::
  "env \<Rightarrow> nat option \<Rightarrow> string list \<Rightarrow> path \<Rightarrow> message list \<times> store \<Rightarrow> message list \<times> store"
  where
  "get_pending_step env max_count accepted_types filename s =
     (let (messages, st) = s in
      if reached max_count messages then (messages, st)
      else (case loads env (get_content st filename) of
              None \<Rightarrow> (messages, add_flags filename BROKEN st)
            | Some message \<Rightarrow>
                if msg_type message \<notin> set accepted_types
                then (messages, add_flags filename HELD st)
                else (messages @ [message], st)))"

definition get_pending_messages :: "env \<Rightarrow> nat option \<Rightarrow> store \<Rightarrow> message list \<times> store" where
  "get_pending_messages env max_count st =
     (let accepted_types = get_accepted_types st
      in walk_pending_messages (get_pending_step env max_count accepted_types) snd ([], st))"

definition delete_old_step :: "nat \<Rightarrow> path \<Rightarrow> nat \<times> store \<Rightarrow> nat \<times> store" where
  "delete_old_step stop fn s =
     (let (n, st) = s in
      if n < stop
      then (let st = unlink fn st;
                containing_dir = fst fn
            in (Suc n, if listdir st containing_dir = [] then rmdir containing_dir st else st))
      else (n, st))"

definition delete_old_messages :: "store \<Rightarrow> store" where
  "delete_old_messages st =
     snd (walk_messages [HELD, BROKEN] (delete_old_step (get_pending_offset st)) snd (0, st))"

definition delete_all_messages :: "store \<Rightarrow> store" where
  "delete_all_messages st =
     walk_messages [] (\<lambda>filename st. unlink filename st) id (set_pending_offset 0 st)"

definition is_pending_step :: "store \<Rightarrow> nat \<Rightarrow> nat \<Rightarrow> path \<Rightarrow> nat \<times> bool \<Rightarrow> nat \<times> bool" where
  "is_pending_step st pending_offset message_id filename s =
     (let (i, found) = s in
      if found then (i, found)
      else (let flags = get_flags filename in
            if (HELD \<in> set flags \<or> i \<ge> pending_offset) \<and> stat_ino st filename = Some message_id
            then (i, True)
            else (if BROKEN \<notin> set flags \<and> HELD \<notin> set flags then Suc i else i, False)))"

definition is_pending :: "store \<Rightarrow> nat \<Rightarrow> bool" where
  "is_pending st message_id =
     snd (walk_messages [BROKEN] (is_pending_step st (get_pending_offset st) message_id)
            (\<lambda>_. st) (0, False))"

definition get_next_message_filename :: "store \<Rightarrow> path \<times> store" where
  "get_next_message_filename st =
     (let message_dirs = get_sorted_dirs st;
          (newest_dir, st) = (if message_dirs \<noteq> [] then (last message_dirs, st)
                              else (0, makedirs 0 st));
          message_filenames = get_sorted_filenames st newest_dir
      in if message_filenames = [] then ((newest_dir, Record 0 []), st)
         else if length message_filenames < directory_size st
         then ((newest_dir, Record (number (last message_filenames) + 1) []), st)
         else ((newest_dir + 1, Record 0 []), makedirs (newest_dir + 1) st))"

fun tmp_name :: "path \<Rightarrow> path" where
  "tmp_name (d, fn) = (d, Temp (number fn))"

definition write_tmp :: "env \<Rightarrow> message \<Rightarrow> store \<Rightarrow> path \<times> store" where
  "write_tmp env message st =
     (let message_data = dumps env message;
          (filename, st) = get_next_message_filename st
      in (filename, write_file (tmp_name filename) message_data st))"

definition add :: "env \<Rightarrow> message \<Rightarrow> store \<Rightarrow> (error + nat) \<times> store" where
  "add env message st =
     (case schemas env (msg_type message) of
        None \<Rightarrow> (Inl KeyError, st)
      | Some coerce \<Rightarrow>
          (case coerce message of
             None \<Rightarrow> (Inl InvalidError, st)
           | Some message \<Rightarrow>
               (let message = (if msg_api message = None
                               then message\<lparr>msg_api := Some (api env)\<rparr> else message);
                    (filename, st) = write_tmp env message st;
                    st = rename (tmp_name filename) filename st;
                    (filename, st) = (if \<not> accepts st (msg_type message)
                                      then set_flags filename [HELD] st else (filename, st))
                in case stat_ino st filename of
                     None \<Rightarrow> (Inl OSError, st)
                   | Some message_id \<Rightarrow> (Inr message_id, st))))"

definition reprocess_step ::
  "env \<Rightarrow> nat \<Rightarrow> string list \<Rightarrow> path \<Rightarrow> nat \<times> store \<Rightarrow> nat \<times> store" where
  "reprocess_step env pending_offset accepted_types old_filename s =
     (let (offset, st) = s;
          flags = get_flags old_filename
      in case loads env (get_content st old_filename) of
           None \<Rightarrow> (if HELD \<notin> set flags then offset + 1 else offset, st)
         | Some message \<Rightarrow>
             (let accepted = (msg_type message \<in> set accepted_types) in
              if HELD \<in> set flags
              then (if accepted
                    then (let (new_filename, st) = get_next_message_filename st;
                              st = rename old_filename new_filename st
                          in (offset, snd (set_flags new_filename (removeAll HELD flags) st)))
                    else (offset, st))
              else (offset + 1,
                    if \<not> accepted \<and> offset \<ge> pending_offset
                    then snd (set_flags old_filename (flags @ [HELD]) st) else st)))"

definition reprocess_holding :: "env \<Rightarrow> store \<Rightarrow> store" where
  "reprocess_holding env st =
     snd (walk_messages []
            (reprocess_step env (get_pending_offset st) (get_accepted_types st))
            snd (0, st))"

definition set_accepted_types :: "env \<Rightarrow> string list \<Rightarrow> store \<Rightarrow> store" where
  "set_accepted_types env types st =
     reprocess_holding env (st\<lparr>p_accepted_types := sort (remdups types)\<rparr>)"

section \<open>Snapshot\<close>

definition walk_list :: "string \<Rightarrow> store \<Rightarrow> path list" where
  "walk_list exclude st =
     concat (map (\<lambda>d. filter (yielded exclude) (map (Pair d) (get_sorted_filenames st d)))
                 (get_sorted_dirs st))"

definition unflagged :: "store \<Rightarrow> path list" where
  "unflagged st = walk_list [HELD, BROKEN] st"

text \<open>
  Modelled from the spec: the reconciliation function (the module docstring of
  \<^verbatim>\<open>landscape/broker/store.py\<close> points to
  \<^verbatim>\<open>landscape.lib.message.got_next_expected\<close>, which is not among the
  sources). The definition follows section 4.2 of the specification: with
  \<open>delta = peer_next_expected - local_sequence\<close>, a normal advance
  (\<open>delta \<ge> 0\<close>) clamps the new pending offset to \<open>buffered_count\<close> from above,
  a regression (\<open>delta < 0\<close>) clamps it to 0 from below.
\<close>

definition reconcile :: "int \<Rightarrow> int \<Rightarrow> int \<Rightarrow> int \<Rightarrow> int \<times> int" where
  "reconcile local_sequence local_pending_offset buffered_count peer_next_expected =
     (let delta = peer_next_expected - local_sequence in
      if delta \<ge> 0
      then (peer_next_expected, min (local_pending_offset + delta) buffered_count)
      else (peer_next_expected, max (local_pending_offset + delta) 0))"

definition pkey :: "path \<Rightarrow> nat \<times> bool \<times> nat" where
  "pkey p = (fst p, endswith_tmp (snd p), number (snd p))"

definition ekey :: "path \<times> stored_file \<Rightarrow> nat \<times> bool \<times> nat" where
  "ekey e = pkey (fst e)"

definition wf :: "store \<Rightarrow> bool" where
  "wf st \<longleftrightarrow> distinct (shards st) \<and> distinct (map ekey (files st))
     \<and> (\<forall>e \<in> set (files st). fst (fst e) \<in> set (shards st))"

definition ordinal :: "path \<Rightarrow> nat \<times> nat" where
  "ordinal p = (fst p, number (snd p))"

definition meta :: "store \<Rightarrow> string list \<times> nat \<times> nat \<times> nat \<times> string option \<times> string option \<times> nat" where
  "meta st = (p_accepted_types st, p_sequence st, p_pending_offset st, p_server_sequence st,
              p_server_uuid st, p_exchange_token st, directory_size st)"

definition with_flags :: "path \<Rightarrow> string \<Rightarrow> path" where
  "with_flags p fl = (fst p, Record (number (snd p)) (sort (remdups fl)))"

definition deliver :: "env \<Rightarrow> string list \<Rightarrow> store \<Rightarrow> path \<Rightarrow> message option" where
  "deliver env accepted st p =
     (case loads env (get_content st p) of
        None \<Rightarrow> None
      | Some m \<Rightarrow> if msg_type m \<in> set accepted then Some m else None)"

definition take_max :: "nat option \<Rightarrow> nat \<Rightarrow> 'a list \<Rightarrow> 'a list" where
  "take_max max_count n xs = (case max_count of None \<Rightarrow> xs | Some m \<Rightarrow> take (m - n) xs)"

definition example_loads :: "string \<Rightarrow> message option" where
  "example_loads s =
     (case s of
        [] \<Rightarrow> None
      | c # t \<Rightarrow> if c = CHR ''m''
                 then Some \<lparr>msg_type = t, msg_api = Some ''3.2'', msg_fields = []\<rparr>
                 else None)"

definition example_dumps :: "message \<Rightarrow> string" where
  "example_dumps m = CHR ''m'' # msg_type m"

definition example_env :: env where
  "example_env =
     \<lparr>schemas = (\<lambda>t. if t = ''a'' \<or> t = ''b'' then Some Some else None),
      api = ''3.2'', dumps = example_dumps, loads = example_loads\<rparr>"

definition example_store :: store where
  "example_store =
     \<lparr>p_accepted_types = [''a''], p_sequence = 0, p_pending_offset = 1, p_server_sequence = 0,
      p_server_uuid = None, p_exchange_token = None, directory_size = 2, shards = [0, 1],
      files = [((0, Record 0 []), \<lparr>st_ino = 100, content = ''ma''\<rparr>),
               ((0, Record 1 ''h''), \<lparr>st_ino = 101, content = ''mb''\<rparr>),
               ((1, Record 0 []), \<lparr>st_ino = 102, content = ''ma''\<rparr>),
               ((1, Record 1 []), \<lparr>st_ino = 103, content = ''xx''\<rparr>),
               ((1, Temp 2), \<lparr>st_ino = 104, content = ''ma''\<rparr>)],
      next_ino = 105\<rparr>"

definition fresh_for :: "store \<Rightarrow> path \<Rightarrow> bool" where
  "fresh_for st p \<longleftrightarrow>
     (\<exists>n. snd p = Record n []
        \<and> (\<forall>q. lookup st q \<noteq> None \<longrightarrow> \<not> endswith_tmp (snd q) \<longrightarrow> ordinal q < ordinal p))"

definition coerce_message :: "env \<Rightarrow> message \<Rightarrow> error + message" where
  "coerce_message env message =
     (case schemas env (msg_type message) of
        None \<Rightarrow> Inl KeyError
      | Some coerce \<Rightarrow>
          (case coerce message of
             None \<Rightarrow> Inl InvalidError
           | Some message \<Rightarrow>
               Inr (if msg_api message = None
                    then message\<lparr>msg_api := Some (api env)\<rparr> else message)))"

definition store_message :: "env \<Rightarrow> message \<Rightarrow> store \<Rightarrow> (error + nat) \<times> store" where
  "store_message env message st =
     (let (filename, st) = write_tmp env message st;
          st = rename (tmp_name filename) filename st;
          (filename, st) = (if \<not> accepts st (msg_type message)
                            then set_flags filename [HELD] st else (filename, st))
      in case stat_ino st filename of
           None \<Rightarrow> (Inl OSError, st)
         | Some message_id \<Rightarrow> (Inr message_id, st))"

fun adds :: "env \<Rightarrow> message list \<Rightarrow> store \<Rightarrow> store" where
  "adds env [] st = st"
| "adds env (m # ms) st = adds env ms (snd (add env m st))"

definition stored :: "env \<Rightarrow> message list \<Rightarrow> message list" where
  "stored env ms =
     List.map_filter (\<lambda>m. case coerce_message env m of Inl e \<Rightarrow> None | Inr m' \<Rightarrow> Some m') ms"

definition pending_paths :: "env \<Rightarrow> nat option \<Rightarrow> store \<Rightarrow> path list" where
  "pending_paths env max_count st =
     take_max max_count 0
       (filter (\<lambda>p. deliver env (get_accepted_types st) st p \<noteq> None)
          (drop (get_pending_offset st) (unflagged st)))"

definition empty_store :: store where
  "empty_store =
     \<lparr>p_accepted_types = [''a''], p_sequence = 0, p_pending_offset = 1, p_server_sequence = 0,
      p_server_uuid = None, p_exchange_token = None, directory_size = 2, shards = [],
      files = [], next_ino = 7\<rparr>"

text \<open>
  \<open>set_contents g st\<close> is the store \<open>st\<close> with the content of every file \<open>p\<close> replaced by
  \<open>g p\<close>; names, inodes and metadata are as in \<open>st\<close>. It is used to state that an operation
  never looks at the content of a file.
\<close>

definition set_contents :: "(path \<Rightarrow> string) \<Rightarrow> store \<Rightarrow> store" where
  "set_contents g st = st\<lparr>files := map (\<lambda>e. (fst e, (snd e)\<lparr>content := g (fst e)\<rparr>)) (files st)\<rparr>"

section \<open>Properties\<close>

text \<open>
  Claim C1. For all non-negative \<open>local_sequence\<close> and \<open>peer_next_expected\<close> and every
  \<open>local_pending_offset\<close> between 0 and \<open>buffered_count\<close>, \<open>reconcile\<close> returns
  \<open>peer_next_expected\<close> as the new sequence; with \<open>delta = peer_next_expected -
  local_sequence\<close> the new pending offset is \<open>min (local_pending_offset + delta)
  buffered_count\<close> when \<open>delta \<ge> 0\<close> and \<open>max (local_pending_offset + delta) 0\<close> when
  \<open>delta < 0\<close>.
\<close>

theorem reconcile_spec:
  assumes "0 \<le> local_sequence" and "0 \<le> peer_next_expected"
    and "0 \<le> local_pending_offset" and "local_pending_offset \<le> buffered_count"
  shows "reconcile local_sequence local_pending_offset buffered_count peer_next_expected
           = (peer_next_expected,
              if 0 \<le> peer_next_expected - local_sequence
              then min (local_pending_offset + (peer_next_expected - local_sequence))
                     buffered_count
              else max (local_pending_offset + (peer_next_expected - local_sequence)) 0)"
  by (simp add: reconcile_def Let_def)

theorem reconcile_spec_witness:
  "(0::int) \<le> 9 \<and> (0::int) \<le> 6 \<and> (0::int) \<le> 5 \<and> (5::int) \<le> 7
   \<and> reconcile 9 5 7 6 = (6, 2)"
  using reconcile_spec [of 9 6 5 7] by simp



lemma pkey_eq_iff: "pkey p = pkey q \<longleftrightarrow> fst p = fst q \<and> endswith_tmp (snd p) = endswith_tmp (snd q) \<and> number (snd p) = number (snd q)"
  by (auto simp: pkey_def)

lemma ekey_pair [simp]: "ekey (p, f) = pkey p"
  by (simp add: ekey_def)

lemma ekey_eq_fst: "fst e = fst e' \<Longrightarrow> ekey e = ekey e'"
  by (simp add: ekey_def)

lemma wf_distinct_paths: "wf st \<Longrightarrow> distinct (map fst (files st))"
proof -
  assume "wf st"
  then have "distinct (map ekey (files st))" by (simp add: wf_def)
  moreover have "ekey = pkey \<circ> fst" by (auto simp: ekey_def)
  ultimately have "distinct (map pkey (map fst (files st)))" by simp
  then show ?thesis by (metis distinct_map)
qed

lemma lookup_Some_iff: "wf st \<Longrightarrow> lookup st p = Some f \<longleftrightarrow> (p, f) \<in> set (files st)"
  by (simp add: lookup_def wf_distinct_paths)

lemma lookup_None_iff: "lookup st p = None \<longleftrightarrow> p \<notin> fst ` set (files st)"
  by (simp add: lookup_def map_of_eq_None_iff)

lemma map_of_filter_key:
  "map_of (filter (\<lambda>e. fst e \<noteq> p) xs) q = (if q = p then None else map_of xs q)"
  by (induction xs) auto

lemma lookup_unlink [simp]: "lookup (unlink p st) q = (if q = p then None else lookup st q)"
  by (simp add: lookup_def unlink_def map_of_filter_key)

lemma map_of_rename:
  "src \<noteq> dst \<Longrightarrow> map_of (map (\<lambda>e. if fst e = src then (dst, snd e) else e) (filter (\<lambda>e. fst e \<noteq> dst) xs)) q
     = (if q = dst then map_of xs src else if q = src then None else map_of xs q)"
  by (induction xs) auto

lemma lookup_rename:
  "lookup (rename src dst st) q =
     (if src = dst \<or> lookup st src = None then lookup st q
      else if q = dst then lookup st src else if q = src then None else lookup st q)"
  by (simp add: rename_def lookup_def map_of_rename)

lemma map_of_overwrite:
  "map_of (map (\<lambda>e. if fst e = p then (p, g (snd e)) else e) xs) q
     = (if q = p then map_option g (map_of xs p) else map_of xs q)"
  by (induction xs) auto

lemma lookup_write_file:
  "lookup (write_file p data st) q =
     (if q = p then Some (case lookup st p of Some f \<Rightarrow> f\<lparr>content := data\<rparr>
                          | None \<Rightarrow> \<lparr>st_ino = next_ino st, content = data\<rparr>)
      else lookup st q)"
  by (auto simp: write_file_def lookup_def map_of_overwrite map_add_def split: option.splits)

lemma lookup_rmdir [simp]: "lookup (rmdir d st) q = lookup st q"
  by (simp add: rmdir_def lookup_def)

lemma lookup_makedirs [simp]: "lookup (makedirs d st) q = lookup st q"
  by (simp add: makedirs_def lookup_def)

lemma shards_unlink [simp]: "shards (unlink p st) = shards st"
  by (simp add: unlink_def)

lemma shards_rename [simp]: "shards (rename src dst st) = shards st"
  by (simp add: rename_def)

lemma shards_write_file [simp]: "shards (write_file p data st) = shards st"
  by (simp add: write_file_def split: option.splits)

lemma wf_unlink: "wf st \<Longrightarrow> wf (unlink p st)"
  by (auto simp: wf_def unlink_def distinct_map_filter)

lemma map_rename_id:
  "\<forall>e\<in>set xs. fst e \<noteq> src \<Longrightarrow> map (\<lambda>e. if fst e = src then (dst, snd e) else e) xs = xs"
  by (induction xs) simp_all

lemma distinct_rename:
  assumes "distinct (map ekey xs)" "\<forall>e\<in>set xs. fst e \<noteq> dst"
   "\<forall>e \<in> set xs. ekey e = pkey dst \<longrightarrow> fst e = src"
  shows "distinct (map ekey (map (\<lambda>e. if fst e = src then (dst, snd e) else e) xs))"
  using assms
proof (induction xs)
  case Nil then show ?case by simp
next
  case (Cons x xs)
  let ?g = "\<lambda>e. if fst e = src then (dst, snd e) else e"
  have keys: "\<forall>e\<in>set xs. ekey e \<noteq> ekey x"
    using Cons.prems(1) by (simp add: image_iff) metis
  have IH: "distinct (map ekey (map ?g xs))"
    using Cons.IH Cons.prems by simp
  show ?case
  proof (cases "fst x = src")
    case True
    have nosrc: "\<forall>e\<in>set xs. fst e \<noteq> src" using keys True ekey_eq_fst by metis
    then have id: "map ?g xs = xs" by (rule map_rename_id)
    have "\<forall>e\<in>set xs. ekey e \<noteq> pkey dst"
      using Cons.prems(3) nosrc by simp
    then have "pkey dst \<notin> set (map ekey xs)" by (simp add: image_iff) metis
    then show ?thesis using Cons.prems(1) True id by simp
  next
    case False
    then have x: "ekey x \<noteq> pkey dst" using Cons.prems(3) by simp
    have "ekey x \<notin> set (map ekey (map ?g xs))"
    proof
      assume "ekey x \<in> set (map ekey (map ?g xs))"
      then obtain e where e: "e \<in> set xs" "ekey x = ekey (?g e)" by (auto simp: image_iff)
      show False
      proof (cases "fst e = src")
        case True then show False using e x by simp
      next
        case False then show False using e keys by auto
      qed
    qed
    then show ?thesis using IH False by simp
  qed
qed

lemma wf_rename:
  assumes "wf st" and "fst dst \<in> set (shards st)"
    and "\<forall>e \<in> set (files st). ekey e = pkey dst \<longrightarrow> fst e = src \<or> fst e = dst"
  shows "wf (rename src dst st)"
proof (cases "src = dst \<or> lookup st src = None")
  case True
  then show ?thesis using assms by (simp add: rename_def)
next
  case False
  let ?g = "\<lambda>e. if fst e = src then (dst, snd e) else e"
  let ?xs = "filter (\<lambda>e. fst e \<noteq> dst) (files st)"
  have d: "distinct (map ekey ?xs)"
    using assms(1) by (simp add: wf_def distinct_map_filter)
  have "distinct (map ekey (map ?g ?xs))"
    using d assms(3) by (intro distinct_rename) auto
  moreover have "\<forall>e\<in>set (map ?g ?xs). fst (fst e) \<in> set (shards st)"
    using assms(1,2) by (auto simp: wf_def)
  ultimately show ?thesis using False assms(1) by (simp add: wf_def rename_def)
qed

lemma set_listdir: "set (listdir st d) = {fn. lookup st (d, fn) \<noteq> None}"
  by (force simp: listdir_def lookup_None_iff image_iff)

lemma set_get_sorted_filenames:
  "set (get_sorted_filenames st d) = {fn. \<not> endswith_tmp fn \<and> lookup st (d, fn) \<noteq> None}"
  by (auto simp: get_sorted_filenames_def set_listdir)

lemma distinct_numbers_aux:
  "distinct (map ekey xs) \<Longrightarrow>
   distinct (map number (filter (\<lambda>x. \<not> endswith_tmp x)
      (map (\<lambda>e. snd (fst e)) (filter (\<lambda>e. fst (fst e) = d) xs))))"
proof (induction xs)
  case Nil then show ?case by simp
next
  case (Cons x xs)
  have key: "\<forall>e\<in>set xs. ekey e \<noteq> ekey x"
    using Cons.prems by (simp add: image_iff) metis
  have IH: "distinct (map number (filter (\<lambda>x. \<not> endswith_tmp x)
      (map (\<lambda>e. snd (fst e)) (filter (\<lambda>e. fst (fst e) = d) xs))))"
    using Cons by simp
  show ?case
  proof (cases "fst (fst x) = d \<and> \<not> endswith_tmp (snd (fst x))")
    case False
    then show ?thesis using IH by auto
  next
    case True
    have "number (snd (fst x)) \<notin> set (map number (filter (\<lambda>x. \<not> endswith_tmp x)
      (map (\<lambda>e. snd (fst e)) (filter (\<lambda>e. fst (fst e) = d) xs))))"
    proof
      assume "number (snd (fst x)) \<in> set (map number (filter (\<lambda>x. \<not> endswith_tmp x)
        (map (\<lambda>e. snd (fst e)) (filter (\<lambda>e. fst (fst e) = d) xs))))"
      then obtain e where e: "e \<in> set xs" "fst (fst e) = d" "\<not> endswith_tmp (snd (fst e))"
          "number (snd (fst x)) = number (snd (fst e))"
        by (auto simp: image_iff)
      then have "ekey e = ekey x" using True by (simp add: ekey_def pkey_def)
      then show False using key e(1) by blast
    qed
    then show ?thesis using IH True by simp
  qed
qed

lemma distinct_numbers:
  "wf st \<Longrightarrow> distinct (map number (get_sorted_filenames st d))"
proof -
  assume "wf st"
  then have "distinct (map number (filter (\<lambda>x. \<not> endswith_tmp x) (listdir st d)))"
    unfolding listdir_def wf_def by (intro distinct_numbers_aux) simp
  then show ?thesis
    unfolding get_sorted_filenames_def by (simp add: distinct_map)
qed

lemma sorted_numbers: "sorted (map number (get_sorted_filenames st d))"
  by (simp add: get_sorted_filenames_def)

lemma strict_numbers:
  "wf st \<Longrightarrow> sorted_wrt (<) (map number (get_sorted_filenames st d))"
  using distinct_numbers sorted_numbers strict_sorted_iff by blast

lemma strict_dirs: "wf st \<Longrightarrow> sorted_wrt (<) (get_sorted_dirs st)"
  by (simp add: get_sorted_dirs_def wf_def strict_sorted_iff)

lemma set_walk_list:
  "set (walk_list ex st) =
     {p. fst p \<in> set (shards st) \<and> \<not> endswith_tmp (snd p) \<and> lookup st p \<noteq> None \<and> yielded ex p}"
  by (auto simp: walk_list_def get_sorted_dirs_def set_get_sorted_filenames)

lemma ordinal_concat_sorted:
  assumes "sorted_wrt (<) ds"
    and "\<And>d. d \<in> set ds \<Longrightarrow> sorted_wrt (<) (map number (f d))"
  shows "sorted_wrt (<) (map ordinal (concat (map (\<lambda>d. filter P (map (Pair d) (f d))) ds)))"
  using assms
proof (induction ds)
  case Nil then show ?case by simp
next
  case (Cons d ds)
  have 1: "sorted_wrt (<) (map ordinal (filter P (map (Pair d) (f d))))"
  proof -
    have "sorted_wrt (<) (map ordinal (map (Pair d) (f d)))"
      using Cons.prems(2)[of d] by (simp add: sorted_wrt_map ordinal_def less_prod_def)
    then show ?thesis
      by (simp add: sorted_wrt_map sorted_wrt_filter)
  qed
  have 2: "sorted_wrt (<) (map ordinal (concat (map (\<lambda>d. filter P (map (Pair d) (f d))) ds)))"
    using Cons by simp
  have 3: "\<forall>x\<in>set (filter P (map (Pair d) (f d))).
            \<forall>y\<in>set (concat (map (\<lambda>d. filter P (map (Pair d) (f d))) ds)). ordinal x < ordinal y"
    using Cons.prems(1) by (auto simp: ordinal_def less_prod_def)
  show ?case using 1 2 3 by (simp add: sorted_wrt_append)
qed

lemma walk_list_sorted:
  "wf st \<Longrightarrow> sorted_wrt (<) (map ordinal (walk_list ex st))"
  unfolding walk_list_def
  by (intro ordinal_concat_sorted strict_dirs strict_numbers)

lemma ordinal_sorted_unique:
  assumes "sorted_wrt (<) (map ordinal xs)" "sorted_wrt (<) (map ordinal ys)" "set xs = set ys"
  shows "xs = ys"
proof -
  have "set (map ordinal xs) = set (map ordinal ys)" using assms(3) by simp
  then have eq: "map ordinal xs = map ordinal ys"
    using assms(1,2) strict_sorted_equal by blast
  have "distinct (map ordinal xs)" using assms(1) strict_sorted_iff by blast
  then have "inj_on ordinal (set xs)" by (simp add: distinct_map)
  then have "inj_on ordinal (set xs \<union> set ys)" using assms(3) by simp
  then show ?thesis using eq inj_on_map_eq_map by blast
qed

lemma walk_list_distinct: "wf st \<Longrightarrow> distinct (walk_list ex st)"
  using walk_list_sorted[of st ex] strict_sorted_iff distinct_map by blast

lemma walk_list_filter: "walk_list ex st = filter (yielded ex) (walk_list [] st)"
  by (simp add: walk_list_def filter_concat comp_def yielded_def)

lemma walk_listI:
  assumes "wf st" "sorted_wrt (<) (map ordinal xs)"
    and "set xs = {p. fst p \<in> set (shards st) \<and> \<not> endswith_tmp (snd p) \<and> lookup st p \<noteq> None \<and> yielded ex p}"
  shows "walk_list ex st = xs"
  using assms ordinal_sorted_unique walk_list_sorted set_walk_list by metis

lemma fold_files_filter:
  "fold (\<lambda>filename s. if yielded ex (d, filename) then body (d, filename) s else s) fns s
   = fold body (filter (yielded ex) (map (Pair d) fns)) s"
  by (induction fns arbitrary: s) auto

lemma fold_keeps:
  assumes "\<And>p s. p \<in> set ps \<Longrightarrow> I s \<Longrightarrow> I (body p s) \<and> Q (body p s) = Q s"
    and "I s"
  shows "I (fold body ps s) \<and> Q (fold body ps s) = Q s"
  using assms by (induction ps arbitrary: s) auto

lemma walk_snapshot_aux:
  assumes step: "\<And>p s d. I s \<Longrightarrow> d \<noteq> fst p \<Longrightarrow>
             get_sorted_filenames (store_of (body p s)) d = get_sorted_filenames (store_of s) d"
    and inv: "\<And>p s. I s \<Longrightarrow> I (body p s)"
  shows "distinct ds \<Longrightarrow> I s \<Longrightarrow>
         (\<forall>d\<in>set ds. get_sorted_filenames (store_of s) d = get_sorted_filenames st0 d) \<Longrightarrow>
         fold (\<lambda>message_dir s.
             fold (\<lambda>filename s.
                     if yielded ex (message_dir, filename)
                     then body (message_dir, filename) s else s)
                  (get_sorted_filenames (store_of s) message_dir) s) ds s
         = fold body (concat (map (\<lambda>d. filter (yielded ex) (map (Pair d) (get_sorted_filenames st0 d))) ds)) s"
proof (induction ds arbitrary: s)
  case Nil then show ?case by simp
next
  case (Cons d ds)
  let ?ps = "filter (yielded ex) (map (Pair d) (get_sorted_filenames st0 d))"
  let ?s1 = "fold body ?ps s"
  have inner: "fold (\<lambda>filename s. if yielded ex (d, filename) then body (d, filename) s else s)
                  (get_sorted_filenames (store_of s) d) s = ?s1"
    using Cons.prems(3) by (simp add: fold_files_filter)
  have keep: "I ?s1 \<and> (\<lambda>s. map (get_sorted_filenames (store_of s)) ds) ?s1
                      = (\<lambda>s. map (get_sorted_filenames (store_of s)) ds) s"
  proof (rule fold_keeps)
    fix p s' assume p: "p \<in> set ?ps" and I: "I s'"
    then have "fst p = d" by auto
    then have "\<forall>d'\<in>set ds. d' \<noteq> fst p" using Cons.prems(1) by auto
    then show "I (body p s') \<and> map (get_sorted_filenames (store_of (body p s'))) ds
                 = map (get_sorted_filenames (store_of s')) ds"
      using inv[OF I] step[OF I] by simp
  qed (rule Cons.prems(2))
  then have l: "\<forall>d\<in>set ds. get_sorted_filenames (store_of ?s1) d = get_sorted_filenames st0 d"
    using Cons.prems(3) by simp
  have "fold (\<lambda>message_dir s.
             fold (\<lambda>filename s.
                     if yielded ex (message_dir, filename)
                     then body (message_dir, filename) s else s)
                  (get_sorted_filenames (store_of s) message_dir) s) ds ?s1
         = fold body (concat (map (\<lambda>d. filter (yielded ex) (map (Pair d) (get_sorted_filenames st0 d))) ds)) ?s1"
    using Cons.IH[of ?s1] Cons.prems(1) keep l by simp
  then show ?case using inner by simp
qed

lemma walk_messages_snapshot:
  assumes "distinct (shards (store_of s0))" and "I s0"
    and "\<And>p s d. I s \<Longrightarrow> d \<noteq> fst p \<Longrightarrow>
             get_sorted_filenames (store_of (body p s)) d = get_sorted_filenames (store_of s) d"
    and "\<And>p s. I s \<Longrightarrow> I (body p s)"
  shows "walk_messages ex body store_of s0 = fold body (walk_list ex (store_of s0)) s0"
  unfolding walk_messages_def walk_list_def
  using assms
  by (intro walk_snapshot_aux[where I=I]) (auto simp: get_sorted_dirs_def)

lemma walk_messages_invariant:
  assumes "I s0" and "\<And>p s. I s \<Longrightarrow> I (body p s)"
  shows "I (walk_messages ex body store_of s0)"
proof -
  have inner: "\<And>d fns s. I s \<Longrightarrow> I (fold (\<lambda>filename s. if yielded ex (d, filename) then body (d, filename) s else s) fns s)"
  proof -
    fix d fns s show "I s \<Longrightarrow> I (fold (\<lambda>filename s. if yielded ex (d, filename) then body (d, filename) s else s) fns s)"
      using assms(2) by (induction fns arbitrary: s) auto
  qed
  have "\<And>ds s. I s \<Longrightarrow> I (fold (\<lambda>message_dir s.
             fold (\<lambda>filename s.
                     if yielded ex (message_dir, filename)
                     then body (message_dir, filename) s else s)
                  (get_sorted_filenames (store_of s) message_dir) s) ds s)"
  proof -
    fix ds s show "I s \<Longrightarrow> I (fold (\<lambda>message_dir s.
             fold (\<lambda>filename s.
                     if yielded ex (message_dir, filename)
                     then body (message_dir, filename) s else s)
                  (get_sorted_filenames (store_of s) message_dir) s) ds s)"
      using inner by (induction ds arbitrary: s) auto
  qed
  then show ?thesis unfolding walk_messages_def using assms(1) by blast
qed

lemma fold_counter:
  "fold (\<lambda>filename (i, s). (Suc i, if i \<ge> k then body filename s else s)) ps (i0, s)
     = (i0 + length ps, fold body (drop (k - i0) ps) s)"
proof (induction ps arbitrary: i0 s)
  case Nil then show ?case by simp
next
  case (Cons p ps)
  show ?case
  proof (cases "i0 \<ge> k")
    case True then show ?thesis using Cons[of "Suc i0"] by simp
  next
    case False
    then have "k - i0 = Suc (k - Suc i0)" by simp
    then show ?thesis using Cons[of "Suc i0"] False by simp
  qed
qed

lemma walk_pending_snapshot:
  assumes "distinct (shards (store_of s0))" and "I s0"
    and "\<And>p s d. I s \<Longrightarrow> d \<noteq> fst p \<Longrightarrow>
             get_sorted_filenames (store_of (body p s)) d = get_sorted_filenames (store_of s) d"
    and "\<And>p s. I s \<Longrightarrow> I (body p s)"
  shows "walk_pending_messages body store_of s0
           = fold body (drop (get_pending_offset (store_of s0)) (unflagged (store_of s0))) s0"
proof -
  let ?k = "get_pending_offset (store_of s0)"
  let ?b = "\<lambda>filename (i, s). (Suc i, if i \<ge> ?k then body filename s else s)"
  have "walk_messages [HELD, BROKEN] ?b (store_of \<circ> snd) (0, s0)
          = fold ?b (walk_list [HELD, BROKEN] ((store_of \<circ> snd) (0::nat, s0))) (0, s0)"
  proof (rule walk_messages_snapshot[where I="\<lambda>x. I (snd x)"])
    show "distinct (shards ((store_of \<circ> snd) (0, s0)))" using assms(1) by simp
    show "I (snd (0, s0))" using assms(2) by simp
    show "\<And>p s d. I (snd s) \<Longrightarrow> d \<noteq> fst p \<Longrightarrow>
        get_sorted_filenames ((store_of \<circ> snd) (?b p s)) d = get_sorted_filenames ((store_of \<circ> snd) s) d"
      using assms(3) by (auto split: prod.splits)
    show "\<And>p s. I (snd s) \<Longrightarrow> I (snd (?b p s))"
      using assms(4) by (auto split: prod.splits)
  qed
  then show ?thesis
    by (simp add: walk_pending_messages_def Let_def fold_counter unflagged_def)
qed

lemma meta_unlink [simp]: "meta (unlink p st) = meta st"
  by (simp add: meta_def unlink_def)

lemma meta_rmdir [simp]: "meta (rmdir d st) = meta st"
  by (simp add: meta_def rmdir_def)

lemma meta_makedirs [simp]: "meta (makedirs d st) = meta st"
  by (simp add: meta_def makedirs_def)

lemma meta_rename [simp]: "meta (rename src dst st) = meta st"
  by (simp add: meta_def rename_def)

lemma meta_write_file [simp]: "meta (write_file p data st) = meta st"
  by (simp add: meta_def write_file_def split: option.splits)

lemma meta_pending_offset: "meta st' = meta st \<Longrightarrow> get_pending_offset st' = get_pending_offset st"
  by (simp add: meta_def get_pending_offset_def)

lemma meta_accepted_types: "meta st' = meta st \<Longrightarrow> get_accepted_types st' = get_accepted_types st"
  by (simp add: meta_def get_accepted_types_def)

lemma listdir_unlink: "fst p \<noteq> d \<Longrightarrow> listdir (unlink p st) d = listdir st d"
proof -
  assume a: "fst p \<noteq> d"
  have "filter (\<lambda>e. fst (fst e) = d) (filter (\<lambda>e. fst e \<noteq> p) (files st))
          = filter (\<lambda>e. fst (fst e) = d) (files st)"
    using a by (induction "files st") (auto intro: filter_cong)
  then show ?thesis by (simp add: listdir_def unlink_def)
qed

lemma listdir_rmdir [simp]: "listdir (rmdir d' st) d = listdir st d"
  by (simp add: listdir_def rmdir_def)

lemma listdir_makedirs [simp]: "listdir (makedirs d' st) d = listdir st d"
  by (simp add: listdir_def makedirs_def)

lemma listdir_rename_aux:
  "fst src \<noteq> d \<Longrightarrow> fst dst \<noteq> d \<Longrightarrow>
   map (\<lambda>e. snd (fst e)) (filter (\<lambda>e. fst (fst e) = d)
      (map (\<lambda>e. if fst e = src then (dst, snd e) else e) (filter (\<lambda>e. fst e \<noteq> dst) xs)))
   = map (\<lambda>e. snd (fst e)) (filter (\<lambda>e. fst (fst e) = d) xs)"
  by (induction xs) auto

lemma listdir_rename:
  "fst src \<noteq> d \<Longrightarrow> fst dst \<noteq> d \<Longrightarrow> listdir (rename src dst st) d = listdir st d"
  by (simp add: listdir_def rename_def listdir_rename_aux)

lemma gsf_unlink: "fst p \<noteq> d \<Longrightarrow> get_sorted_filenames (unlink p st) d = get_sorted_filenames st d"
  by (simp add: get_sorted_filenames_def listdir_unlink)

lemma gsf_rmdir [simp]: "get_sorted_filenames (rmdir d' st) d = get_sorted_filenames st d"
  by (simp add: get_sorted_filenames_def)

lemma gsf_makedirs [simp]: "get_sorted_filenames (makedirs d' st) d = get_sorted_filenames st d"
  by (simp add: get_sorted_filenames_def)

lemma gsf_rename:
  "fst src \<noteq> d \<Longrightarrow> fst dst \<noteq> d \<Longrightarrow>
   get_sorted_filenames (rename src dst st) d = get_sorted_filenames st d"
  by (simp add: get_sorted_filenames_def listdir_rename)

lemma fst_set_flags [simp]: "fst (fst (set_flags p fl st)) = fst p"
  by (simp add: set_flags_def Let_def)

lemma gsf_set_flags:
  "fst p \<noteq> d \<Longrightarrow> get_sorted_filenames (snd (set_flags p fl st)) d = get_sorted_filenames st d"
  by (simp add: set_flags_def Let_def gsf_rename)

lemma gsf_add_flags:
  "fst p \<noteq> d \<Longrightarrow> get_sorted_filenames (add_flags p c st) d = get_sorted_filenames st d"
  by (simp add: add_flags_def gsf_set_flags)

lemma wf_rmdir: "wf st \<Longrightarrow> listdir st d = [] \<Longrightarrow> wf (rmdir d st)"
proof -
  assume w: "wf st" and l: "listdir st d = []"
  have "\<forall>e\<in>set (files st). fst (fst e) \<noteq> d"
    using l by (auto simp: listdir_def filter_empty_conv)
  then show ?thesis using w by (auto simp: wf_def rmdir_def)
qed

lemma fold_unlink_lookup:
  "lookup (fold unlink ps st) q = (if q \<in> set ps then None else lookup st q)"
  by (induction ps arbitrary: st) auto

lemma fold_unlink_shards: "shards (fold unlink ps st) = shards st"
  by (induction ps arbitrary: st) auto

lemma fold_unlink_meta: "meta (fold unlink ps st) = meta st"
  by (induction ps arbitrary: st) auto

lemma fold_unlink_wf: "wf st \<Longrightarrow> wf (fold unlink ps st)"
  by (induction ps arbitrary: st) (auto simp: wf_unlink)

lemma delete_all_fold:
  "wf st \<Longrightarrow> delete_all_messages st
     = fold unlink (walk_list [] (set_pending_offset 0 st)) (set_pending_offset 0 st)"
  unfolding delete_all_messages_def
  by (rule walk_messages_snapshot[where I="\<lambda>_. True" and store_of=id, simplified])
     (simp_all add: wf_def set_pending_offset_def gsf_unlink)

lemma listdir_empty_iff: "listdir st d = [] \<longleftrightarrow> (\<forall>fn. lookup st (d, fn) = None)"
proof -
  have "listdir st d = [] \<longleftrightarrow> set (listdir st d) = {}" by simp
  then show ?thesis unfolding set_listdir by auto
qed

lemma delete_old_fold:
  "wf st \<Longrightarrow> delete_old_messages st
     = snd (fold (delete_old_step (get_pending_offset st)) (unflagged st) (0, st))"
proof -
  assume w: "wf st"
  have "walk_messages [HELD, BROKEN] (delete_old_step (get_pending_offset st)) snd (0, st)
          = fold (delete_old_step (get_pending_offset st)) (walk_list [HELD, BROKEN] (snd (0::nat, st))) (0, st)"
  proof (rule walk_messages_snapshot[where I="\<lambda>_. True"])
    show "distinct (shards (snd (0::nat, st)))" using w by (simp add: wf_def)
    show "\<And>p s d. True \<Longrightarrow> d \<noteq> fst p \<Longrightarrow>
        get_sorted_filenames (snd (delete_old_step (get_pending_offset st) p s)) d
          = get_sorted_filenames (snd s) d"
      by (auto simp: delete_old_step_def Let_def gsf_unlink split: prod.splits)
  qed simp_all
  then show ?thesis by (simp add: delete_old_messages_def unflagged_def)
qed

lemma delete_old_step_simps:
  "delete_old_step k p (n, st) =
     (if n < k then (Suc n, if listdir (unlink p st) (fst p) = [] then rmdir (fst p) (unlink p st)
                            else unlink p st)
      else (n, st))"
  by (simp add: delete_old_step_def Let_def)

lemma fold_delete_old_lookup:
  "lookup (snd (fold (delete_old_step k) ps (n, st))) q
     = (if q \<in> set (take (k - n) ps) then None else lookup st q)"
proof (induction ps arbitrary: n st)
  case Nil then show ?case by simp
next
  case (Cons p ps)
  show ?case
  proof (cases "n < k")
    case True
    then have "k - n = Suc (k - Suc n)" by simp
    then have t: "take (k - n) (p # ps) = p # take (k - Suc n) ps"
      by simp
    show ?thesis using True Cons[of "Suc n"] by (simp add: delete_old_step_simps t)
  next
    case False
    then show ?thesis using Cons[of n st] by (simp add: delete_old_step_simps)
  qed
qed

lemma fold_delete_old_meta:
  "meta (snd (fold (delete_old_step k) ps (n, st))) = meta st"
  by (induction ps arbitrary: n st) (simp_all add: delete_old_step_simps)

lemma fold_delete_old_wf:
  "wf st \<Longrightarrow> wf (snd (fold (delete_old_step k) ps (n, st)))"
  by (induction ps arbitrary: n st) (simp_all add: delete_old_step_simps wf_unlink wf_rmdir)

lemma fold_delete_old_shards:
  "set (shards (snd (fold (delete_old_step k) ps (n, st)))) \<subseteq> set (shards st)"
proof (induction ps arbitrary: n st)
  case Nil then show ?case by simp
next
  case (Cons p ps)
  have "set (shards (rmdir (fst p) (unlink p st))) \<subseteq> set (shards st)"
    by (auto simp: rmdir_def)
  then show ?case
    using Cons[of "Suc n" "rmdir (fst p) (unlink p st)"] Cons[of "Suc n" "unlink p st"] Cons[of n st]
    by (auto simp: delete_old_step_simps)
qed

lemma fold_delete_old_removed:
  "d \<in> set (shards st) \<Longrightarrow> d \<notin> set (shards (snd (fold (delete_old_step k) ps (n, st)))) \<Longrightarrow>
   lookup (snd (fold (delete_old_step k) ps (n, st))) (d, fn) = None"
proof (induction ps arbitrary: n st)
  case Nil then show ?case by simp
next
  case (Cons p ps)
  show ?case
  proof (cases "n < k")
    case False
    then show ?thesis using Cons.IH[of st n] Cons.prems by (simp add: delete_old_step_simps)
  next
    case True
    let ?st1 = "unlink p st"
    let ?st2 = "if listdir ?st1 (fst p) = [] then rmdir (fst p) ?st1 else ?st1"
    have step: "fold (delete_old_step k) (p # ps) (n, st) = fold (delete_old_step k) ps (Suc n, ?st2)"
      using True by (simp add: delete_old_step_simps)
    show ?thesis
    proof (cases "d \<in> set (shards ?st2)")
      case True
      then show ?thesis using Cons.IH[of ?st2 "Suc n"] Cons.prems(2) step by simp
    next
      case False
      then have "listdir ?st1 (fst p) = []" and "d = fst p"
        using Cons.prems(1) by (auto simp: rmdir_def split: if_splits)
      then have "lookup ?st2 (d, fn) = None"
        by (simp add: listdir_empty_iff del: lookup_unlink)
      then show ?thesis
        unfolding step by (simp add: fold_delete_old_lookup del: lookup_unlink)
    qed
  qed
qed

lemma filter_take_drop:
  "distinct xs \<Longrightarrow> filter (\<lambda>p. p \<notin> set (take k xs)) xs = drop k xs"
proof -
  assume d: "distinct xs"
  have "xs = take k xs @ drop k xs" by simp
  then have "filter (\<lambda>p. p \<notin> set (take k xs)) xs
      = filter (\<lambda>p. p \<notin> set (take k xs)) (take k xs) @ filter (\<lambda>p. p \<notin> set (take k xs)) (drop k xs)"
    by (metis filter_append)
  moreover have "filter (\<lambda>p. p \<notin> set (take k xs)) (take k xs) = []" by simp
  moreover have "filter (\<lambda>p. p \<notin> set (take k xs)) (drop k xs) = drop k xs"
  proof -
    have "set (take k xs) \<inter> set (drop k xs) = {}"
      using d by (metis append_take_drop_id distinct_append)
    then show ?thesis by (auto simp: filter_id_conv)
  qed
  ultimately show ?thesis by simp
qed

lemma delete_old_walk:
  assumes "wf st"
  shows "walk_list ex (delete_old_messages st)
           = filter (\<lambda>p. p \<notin> set (take (get_pending_offset st) (unflagged st))) (walk_list ex st)"
proof -
  let ?k = "get_pending_offset st"
  let ?st' = "delete_old_messages st"
  have st': "?st' = snd (fold (delete_old_step ?k) (unflagged st) (0, st))"
    using assms by (rule delete_old_fold)
  have w: "wf ?st'" unfolding st' using assms by (rule fold_delete_old_wf)
  have lk: "\<And>q. lookup ?st' q = (if q \<in> set (take ?k (unflagged st)) then None else lookup st q)"
    unfolding st' by (simp add: fold_delete_old_lookup)
  have sub: "set (shards ?st') \<subseteq> set (shards st)"
    unfolding st' by (rule fold_delete_old_shards)
  have rem: "\<And>d fn. d \<in> set (shards st) \<Longrightarrow> d \<notin> set (shards ?st') \<Longrightarrow> lookup ?st' (d, fn) = None"
    unfolding st' by (rule fold_delete_old_removed)
  show ?thesis
  proof (rule walk_listI[OF w])
    show "sorted_wrt (<) (map ordinal (filter (\<lambda>p. p \<notin> set (take ?k (unflagged st))) (walk_list ex st)))"
      using walk_list_sorted[OF assms, of ex] by (simp add: sorted_wrt_map sorted_wrt_filter)
    show "set (filter (\<lambda>p. p \<notin> set (take ?k (unflagged st))) (walk_list ex st))
            = {p. fst p \<in> set (shards ?st') \<and> \<not> endswith_tmp (snd p) \<and> lookup ?st' p \<noteq> None \<and> yielded ex p}"
      (is "?L = ?R")
    proof
      show "?L \<subseteq> ?R"
      proof
        fix p assume "p \<in> ?L"
        then have p: "p \<notin> set (take ?k (unflagged st))" "fst p \<in> set (shards st)"
          "\<not> endswith_tmp (snd p)" "lookup st p \<noteq> None" "yielded ex p"
          by (auto simp: set_walk_list)
        then have l: "lookup ?st' p \<noteq> None" using lk by simp
        have "fst p \<in> set (shards ?st')"
          using rem[of "fst p" "snd p"] p(2) l by auto
        then show "p \<in> ?R" using p l by simp
      qed
      show "?R \<subseteq> ?L"
        using sub lk by (auto simp: set_walk_list split: if_splits)
    qed
  qed
qed

lemma delete_old_unflagged:
  "wf st \<Longrightarrow> unflagged (delete_old_messages st) = drop (get_pending_offset st) (unflagged st)"
  unfolding unflagged_def
  by (simp add: delete_old_walk filter_take_drop walk_list_distinct unflagged_def)

lemma delete_old_meta: "wf st \<Longrightarrow> meta (delete_old_messages st) = meta st"
  by (simp add: delete_old_fold fold_delete_old_meta)

lemma delete_old_wf: "wf st \<Longrightarrow> wf (delete_old_messages st)"
  by (simp add: delete_old_fold fold_delete_old_wf)

lemma delete_old_lookup:
  "wf st \<Longrightarrow> lookup (delete_old_messages st) q
     = (if q \<in> set (take (get_pending_offset st) (unflagged st)) then None else lookup st q)"
  by (simp add: delete_old_fold fold_delete_old_lookup)

lemma set_flags_eq: "set_flags p fl st = (with_flags p fl, rename p (with_flags p fl) st)"
  by (simp add: set_flags_def with_flags_def Let_def)

lemma add_flags_eq: "add_flags p c st = rename p (with_flags p (get_flags p @ [c])) st"
  by (simp add: add_flags_def set_flags_eq)

lemma ordinal_with_flags [simp]: "ordinal (with_flags p fl) = ordinal p"
  by (simp add: ordinal_def with_flags_def)

lemma fst_with_flags [simp]: "fst (with_flags p fl) = fst p"
  by (simp add: with_flags_def)

lemma tmp_with_flags [simp]: "\<not> endswith_tmp (snd (with_flags p fl))"
  by (simp add: with_flags_def)

lemma get_flags_with_flags [simp]: "get_flags (with_flags p fl) = sort (remdups fl)"
  by (simp add: with_flags_def)

lemma pkey_with_flags: "\<not> endswith_tmp (snd p) \<Longrightarrow> pkey (with_flags p fl) = pkey p"
  by (simp add: pkey_def with_flags_def)

lemma wf_key_unique:
  assumes "wf st" "lookup st p \<noteq> None" "e \<in> set (files st)" "ekey e = pkey p"
  shows "fst e = p"
proof -
  obtain f where f: "(p, f) \<in> set (files st)"
    using assms(1,2) lookup_Some_iff by fastforce
  have "inj_on ekey (set (files st))"
    using assms(1) by (simp add: wf_def distinct_map)
  moreover have "ekey (p, f) = ekey e" using assms(4) by simp
  ultimately have "e = (p, f)" using f assms(3) by (metis inj_onD)
  then show ?thesis by simp
qed

lemma wf_dir_exists:
  "wf st \<Longrightarrow> lookup st p \<noteq> None \<Longrightarrow> fst p \<in> set (shards st)"
proof -
  assume w: "wf st" and l: "lookup st p \<noteq> None"
  then obtain f where "(p, f) \<in> set (files st)" using lookup_Some_iff by fastforce
  then show ?thesis using w by (force simp: wf_def)
qed

lemma wf_reflag:
  assumes "wf st" "\<not> endswith_tmp (snd p)"
  shows "wf (rename p (with_flags p fl) st)"
proof (cases "lookup st p = None")
  case True then show ?thesis using assms by (simp add: rename_def)
next
  case False
  show ?thesis
  proof (rule wf_rename[OF assms(1)])
    show "fst (with_flags p fl) \<in> set (shards st)"
      using wf_dir_exists[OF assms(1) False] by simp
    show "\<forall>e\<in>set (files st). ekey e = pkey (with_flags p fl) \<longrightarrow> fst e = p \<or> fst e = with_flags p fl"
      using wf_key_unique[OF assms(1) False] pkey_with_flags[OF assms(2)] by auto
  qed
qed

lemma wf_add_flags: "wf st \<Longrightarrow> \<not> endswith_tmp (snd p) \<Longrightarrow> wf (add_flags p c st)"
  by (simp add: add_flags_eq wf_reflag)

lemma lookup_reflag_other:
  "ordinal q \<noteq> ordinal p \<Longrightarrow> lookup (rename p (with_flags p fl) st) q = lookup st q"
  by (auto simp: lookup_rename)

lemma lookup_add_flags_other:
  "ordinal q \<noteq> ordinal p \<Longrightarrow> lookup (add_flags p c st) q = lookup st q"
  by (simp add: add_flags_eq lookup_reflag_other)

lemma shards_add_flags [simp]: "shards (add_flags p c st) = shards st"
  by (simp add: add_flags_eq)

lemma meta_add_flags [simp]: "meta (add_flags p c st) = meta st"
  by (simp add: add_flags_eq)

lemma get_pending_step_simps:
  "get_pending_step env mx acc p (msgs, st) =
     (if reached mx msgs then (msgs, st)
      else case loads env (get_content st p) of
             None \<Rightarrow> (msgs, add_flags p BROKEN st)
           | Some m \<Rightarrow> if msg_type m \<notin> set acc then (msgs, add_flags p HELD st)
                        else (msgs @ [m], st))"
  by (simp add: get_pending_step_def)

lemma get_pending_fold:
  assumes "wf st"
  shows "get_pending_messages env mx st
     = fold (get_pending_step env mx (get_accepted_types st))
            (drop (get_pending_offset st) (unflagged st)) ([], st)"
proof -
  have "walk_pending_messages (get_pending_step env mx (get_accepted_types st)) snd ([], st)
      = fold (get_pending_step env mx (get_accepted_types st))
            (drop (get_pending_offset (snd ([]::message list, st))) (unflagged (snd ([]::message list, st)))) ([], st)"
  proof (rule walk_pending_snapshot[where I="\<lambda>_. True"])
    show "distinct (shards (snd ([]::message list, st)))" using assms by (simp add: wf_def)
    show "\<And>p s d. True \<Longrightarrow> d \<noteq> fst p \<Longrightarrow>
        get_sorted_filenames (snd (get_pending_step env mx (get_accepted_types st) p s)) d
          = get_sorted_filenames (snd s) d"
      by (auto simp: get_pending_step_def gsf_add_flags split: prod.splits option.splits)
  qed simp_all
  then show ?thesis by (simp add: get_pending_messages_def Let_def)
qed

lemma map_filter_cong:
  "(\<And>x. x \<in> set xs \<Longrightarrow> f x = g x) \<Longrightarrow> List.map_filter f xs = List.map_filter g xs"
  by (induction xs) (simp_all add: map_filter_simps split: option.splits)

lemma deliver_cong:
  "lookup st' p = lookup st p \<Longrightarrow> deliver env acc st' p = deliver env acc st p"
  by (simp add: deliver_def get_content_def)

lemma fold_get_pending_fst:
  assumes "distinct (map ordinal ps)"
  shows "fst (fold (get_pending_step env mx acc) ps (msgs, s))
           = msgs @ take_max mx (length msgs) (List.map_filter (deliver env acc s) ps)"
  using assms
proof (induction ps arbitrary: msgs s)
  case Nil
  then show ?case by (simp add: take_max_def map_filter_simps split: option.splits)
next
  case (Cons p ps)
  have d: "distinct (map ordinal ps)" and o: "\<forall>q\<in>set ps. ordinal q \<noteq> ordinal p"
    using Cons.prems by (simp, simp add: image_iff, metis)
  have same: "\<And>c. List.map_filter (deliver env acc (add_flags p c s)) ps
                  = List.map_filter (deliver env acc s) ps"
    using o by (intro map_filter_cong deliver_cong lookup_add_flags_other) simp
  show ?case
  proof (cases "reached mx msgs")
    case True
    then obtain m where m: "mx = Some m" "m \<le> length msgs"
      by (auto simp: reached_def split: option.splits)
    show ?thesis
      using True Cons.IH[OF d, of msgs s] m
      by (simp add: get_pending_step_simps take_max_def)
  next
    case False
    show ?thesis
    proof (cases "loads env (get_content s p)")
      case None
      then have "deliver env acc s p = None" by (simp add: deliver_def)
      then show ?thesis
        using False None Cons.IH[OF d, of msgs "add_flags p BROKEN s"] same
        by (simp add: get_pending_step_simps map_filter_simps)
    next
      case (Some m)
      show ?thesis
      proof (cases "msg_type m \<in> set acc")
        case False
        then have "deliver env acc s p = None" using Some by (simp add: deliver_def)
        then show ?thesis
          using \<open>\<not> reached mx msgs\<close> Some False Cons.IH[OF d, of msgs "add_flags p HELD s"] same
          by (simp add: get_pending_step_simps map_filter_simps)
      next
        case True
        then have dl: "deliver env acc s p = Some m" using Some by (simp add: deliver_def)
        have "take_max mx (length msgs) (m # List.map_filter (deliver env acc s) ps)
                = m # take_max mx (Suc (length msgs)) (List.map_filter (deliver env acc s) ps)"
        proof (cases mx)
          case None then show ?thesis by (simp add: take_max_def)
        next
          case (Some k)
          then have "length msgs < k" using \<open>\<not> reached mx msgs\<close> by (simp add: reached_def)
          then have "k - length msgs = Suc (k - Suc (length msgs))" by simp
          then show ?thesis using Some by (simp add: take_max_def)
        qed
        then show ?thesis
          using \<open>\<not> reached mx msgs\<close> Some True dl Cons.IH[OF d, of "msgs @ [m]" s]
          by (simp add: get_pending_step_simps map_filter_simps)
      qed
    qed
  qed
qed

lemma unflagged_ordinals: "wf st \<Longrightarrow> distinct (map ordinal (unflagged st))"
  using walk_list_sorted[of st "[HELD, BROKEN]"] strict_sorted_iff unflagged_def by metis

lemma get_pending_messages_fst:
  assumes "wf st"
  shows "fst (get_pending_messages env mx st)
     = take_max mx 0 (List.map_filter (deliver env (get_accepted_types st) st)
                        (drop (get_pending_offset st) (unflagged st)))"
proof -
  have "distinct (map ordinal (drop (get_pending_offset st) (unflagged st)))"
    using unflagged_ordinals[OF assms] by (simp add: drop_map[symmetric] distinct_drop)
  then show ?thesis
    using fold_get_pending_fst[of _ env mx _ "[]" st]
    by (simp add: get_pending_fold[OF assms])
qed

lemma fold_get_pending_inv:
  assumes "\<forall>p\<in>set ps. \<not> endswith_tmp (snd p)" "wf (snd s)"
  shows "wf (snd (fold (get_pending_step env mx acc) ps s))
       \<and> meta (snd (fold (get_pending_step env mx acc) ps s)) = meta (snd s)
       \<and> shards (snd (fold (get_pending_step env mx acc) ps s)) = shards (snd s)"
  using assms
proof (induction ps arbitrary: s)
  case Nil then show ?case by simp
next
  case (Cons p ps)
  obtain msgs st where s: "s = (msgs, st)" by (cases s)
  let ?s1 = "get_pending_step env mx acc p s"
  have 1: "wf (snd ?s1) \<and> meta (snd ?s1) = meta (snd s) \<and> shards (snd ?s1) = shards (snd s)"
    using Cons.prems unfolding s
    by (auto simp: get_pending_step_simps wf_add_flags split: option.splits)
  then show ?case using Cons.IH[of ?s1] Cons.prems(1) by simp
qed

lemma fold_get_pending_other:
  assumes "\<forall>p\<in>set ps. ordinal p \<noteq> ordinal q"
  shows "lookup (snd (fold (get_pending_step env mx acc) ps s)) q = lookup (snd s) q"
  using assms
proof (induction ps arbitrary: s)
  case Nil then show ?case by simp
next
  case (Cons p ps)
  obtain msgs st where s: "s = (msgs, st)" by (cases s)
  have "lookup (snd (get_pending_step env mx acc p s)) q = lookup (snd s) q"
    using Cons.prems unfolding s
    by (auto simp: get_pending_step_simps lookup_add_flags_other split: option.splits)
  then show ?case using Cons by simp
qed

lemma lookup_set_pending_offset [simp]: "lookup (set_pending_offset v st) p = lookup st p"
  by (simp add: lookup_def set_pending_offset_def)

lemma walk_list_set_pending_offset [simp]: "walk_list ex (set_pending_offset v st) = walk_list ex st"
  by (simp add: walk_list_def get_sorted_dirs_def get_sorted_filenames_def listdir_def
      set_pending_offset_def)

lemma unflagged_set_pending_offset [simp]: "unflagged (set_pending_offset v st) = unflagged st"
  by (simp add: unflagged_def)

lemma wf_set_pending_offset [simp]: "wf (set_pending_offset v st) = wf st"
  by (simp add: wf_def set_pending_offset_def)

lemma accepted_set_pending_offset [simp]:
  "get_accepted_types (set_pending_offset v st) = get_accepted_types st"
  by (simp add: get_accepted_types_def set_pending_offset_def)

lemma get_set_pending_offset [simp]: "get_pending_offset (set_pending_offset v st) = v"
  by (simp add: get_pending_offset_def set_pending_offset_def)

lemma deliver_set_pending_offset [simp]:
  "deliver env acc (set_pending_offset v st) = deliver env acc st"
  by (rule ext) (simp add: deliver_def get_content_def)

lemma count_pending_length:
  assumes "wf st"
  shows "count_pending_messages st = length (drop (get_pending_offset st) (unflagged st))"
proof -
  let ?b = "\<lambda>(x::path) (n::nat, st::store). (n + 1, st)"
  have "walk_pending_messages ?b snd (0, st)
      = fold ?b (drop (get_pending_offset (snd (0::nat, st))) (unflagged (snd (0::nat, st)))) (0, st)"
  proof (rule walk_pending_snapshot[where I="\<lambda>_. True"])
    show "distinct (shards (snd (0::nat, st)))" using assms by (simp add: wf_def)
  qed (auto split: prod.splits)
  moreover have "\<And>ps n. fold ?b ps (n, st) = (n + length ps, st)"
  proof -
    fix ps n show "fold ?b ps (n, st) = (n + length ps, st)"
      by (induction ps arbitrary: n) auto
  qed
  ultimately show ?thesis by (simp add: count_pending_messages_def)
qed

lemma delete_all_lookup:
  "wf st \<Longrightarrow> lookup (delete_all_messages st) q
     = (if q \<in> set (walk_list [] st) then None else lookup st q)"
  by (simp add: delete_all_fold fold_unlink_lookup)

lemma delete_all_shards: "wf st \<Longrightarrow> shards (delete_all_messages st) = shards st"
  by (simp add: delete_all_fold fold_unlink_shards set_pending_offset_def)

lemma delete_all_meta:
  "wf st \<Longrightarrow> meta (delete_all_messages st) = meta (set_pending_offset 0 st)"
  by (simp add: delete_all_fold fold_unlink_meta)

lemma delete_all_wf: "wf st \<Longrightarrow> wf (delete_all_messages st)"
  by (simp add: delete_all_fold fold_unlink_wf)

lemma delete_all_walk: "wf st \<Longrightarrow> walk_list ex (delete_all_messages st) = []"
proof -
  assume w: "wf st"
  have "set (walk_list ex (delete_all_messages st)) = {}"
    unfolding set_walk_list
    using w by (auto simp: delete_all_lookup delete_all_shards set_walk_list yielded_def)
  then show ?thesis by simp
qed

lemma wf_example_store: "wf example_store"
  by code_simp



lemma delete_old_twice_walk:
  assumes "wf st"
  shows "walk_list ex (delete_old_messages (delete_old_messages st))
           = filter (\<lambda>p. p \<notin> set (take (get_pending_offset st)
                                        (drop (get_pending_offset st) (unflagged st))))
                    (walk_list ex (delete_old_messages st))"
proof -
  have w: "wf (delete_old_messages st)" using assms by (rule delete_old_wf)
  have k: "get_pending_offset (delete_old_messages st) = get_pending_offset st"
    using delete_old_meta[OF assms] by (rule meta_pending_offset)
  show ?thesis
    using delete_old_walk[OF w, of ex] by (simp add: k delete_old_unflagged[OF assms])
qed

lemma take_drop_Nil_iff: "take k (drop k (U::'a list)) = [] \<longleftrightarrow> k = 0 \<or> length U \<le> k"
  by (cases "k = 0") simp_all

lemma inter_subset_empty_iff: "A \<subseteq> B \<Longrightarrow> B \<inter> A = {} \<longleftrightarrow> A = {}"
  by auto

lemma filter_id_iff_disjoint:
  "filter (\<lambda>p. p \<notin> A) xs = xs \<longleftrightarrow> set xs \<inter> A = {}"
  by (auto simp: filter_id_conv)

text \<open>
  Claim C5, as stated, fails: \<open>delete_old_messages\<close> does not reset the pending offset, so
  a second call removes the next \<open>pending_offset\<close> unflagged records. In the example
  store (pending offset 1, unflagged records \<open>0/0\<close>, \<open>1/0\<close> and \<open>1/1\<close>) the first call
  removes \<open>0/0\<close> and the second removes \<open>1/0\<close> as well.
\<close>

theorem delete_old_not_idempotent_counterexample:
  "walk_list [] (delete_old_messages example_store)
     = [(0, Record 1 ''h''), (1, Record 0 []), (1, Record 1 [])]
   \<and> walk_list [] (delete_old_messages (delete_old_messages example_store))
     = [(0, Record 1 ''h''), (1, Record 1 [])]"
  by code_simp

text \<open>
  Claim C5, amended. On every well-formed store \<open>delete_old_messages\<close> leaves the
  metadata values unchanged, and a second call in succession removes exactly the next
  \<open>pending_offset\<close> unflagged records; so two calls leave the same record files as one
  call exactly when the pending offset is 0 or the store held at most \<open>pending_offset\<close>
  unflagged records.
\<close>

theorem delete_old_messages_twice:
  assumes "wf st"
  shows "meta (delete_old_messages (delete_old_messages st)) = meta (delete_old_messages st)
       \<and> meta (delete_old_messages st) = meta st
       \<and> walk_list [] (delete_old_messages (delete_old_messages st))
           = filter (\<lambda>p. p \<notin> set (take (get_pending_offset st)
                                        (drop (get_pending_offset st) (unflagged st))))
                    (walk_list [] (delete_old_messages st))
       \<and> (walk_list [] (delete_old_messages (delete_old_messages st))
            = walk_list [] (delete_old_messages st)
          \<longleftrightarrow> get_pending_offset st = 0 \<or> length (unflagged st) \<le> get_pending_offset st)"
proof -
  let ?k = "get_pending_offset st"
  let ?U = "unflagged st"
  let ?d = "delete_old_messages st"
  let ?N = "take ?k (drop ?k ?U)"
  have w: "wf ?d" using assms by (rule delete_old_wf)
  have tw: "walk_list [] (delete_old_messages ?d) = filter (\<lambda>p. p \<notin> set ?N) (walk_list [] ?d)"
    using assms by (rule delete_old_twice_walk)
  have sub: "set ?N \<subseteq> set (walk_list [] ?d)"
  proof -
    have "set ?N \<subseteq> set (unflagged ?d)"
      by (simp add: delete_old_unflagged[OF assms] set_take_subset)
    also have "\<dots> \<subseteq> set (walk_list [] ?d)"
      unfolding unflagged_def by (subst walk_list_filter) auto
    finally show ?thesis .
  qed
  have "walk_list [] (delete_old_messages ?d) = walk_list [] ?d
           \<longleftrightarrow> set (walk_list [] ?d) \<inter> set ?N = {}"
    unfolding tw by (rule filter_id_iff_disjoint)
  also have "\<dots> \<longleftrightarrow> set ?N = {}" using sub by (rule inter_subset_empty_iff)
  also have "\<dots> \<longleftrightarrow> ?N = []" by (rule set_empty)
  also have "\<dots> \<longleftrightarrow> ?k = 0 \<or> length ?U \<le> ?k" by (rule take_drop_Nil_iff)
  finally have iff: "walk_list [] (delete_old_messages ?d) = walk_list [] ?d
      \<longleftrightarrow> ?k = 0 \<or> length ?U \<le> ?k" .
  show ?thesis
    using delete_old_meta[OF w] delete_old_meta[OF assms] tw iff
    by (intro conjI)
qed

theorem delete_old_messages_twice_witness:
  "wf example_store
   \<and> meta (delete_old_messages (delete_old_messages example_store)) = meta example_store
   \<and> walk_list [] (delete_old_messages (delete_old_messages example_store))
       \<noteq> walk_list [] (delete_old_messages example_store)"
proof -
  have w: "wf example_store" by code_simp
  have k: "get_pending_offset example_store = 1" by code_simp
  have u: "length (unflagged example_store) = 3" by code_simp
  note t = delete_old_messages_twice[OF w]
  have m1: "meta (delete_old_messages (delete_old_messages example_store))
              = meta (delete_old_messages example_store)"
    using t by (rule conjunct1)
  have m2: "meta (delete_old_messages example_store) = meta example_store"
    using t by (elim conjE)
  have i: "walk_list [] (delete_old_messages (delete_old_messages example_store))
            = walk_list [] (delete_old_messages example_store)
          \<longleftrightarrow> get_pending_offset example_store = 0
              \<or> length (unflagged example_store) \<le> get_pending_offset example_store"
    using t by (elim conjE)
  have n: "\<not> (get_pending_offset example_store = 0
              \<or> length (unflagged example_store) \<le> get_pending_offset example_store)"
    unfolding k u by simp
  show ?thesis using w m1 m2 i n by (simp only: simp_thms)
qed

lemma unflagged_flags:
  "p \<in> set (unflagged st) \<Longrightarrow> HELD \<notin> set (get_flags p) \<and> BROKEN \<notin> set (get_flags p)"
  by (auto simp: unflagged_def set_walk_list yielded_def)

lemma deliver_after_delete_old:
  assumes "wf st" "p \<in> set (drop (get_pending_offset st) (unflagged st))"
  shows "deliver env acc (delete_old_messages st) p = deliver env acc st p"
proof -
  have "distinct (unflagged st)" using assms(1) by (simp add: unflagged_def walk_list_distinct)
  then have "set (take (get_pending_offset st) (unflagged st))
               \<inter> set (drop (get_pending_offset st) (unflagged st)) = {}"
    by (metis append_take_drop_id distinct_append)
  then have "p \<notin> set (take (get_pending_offset st) (unflagged st))" using assms(2) by auto
  then show ?thesis by (intro deliver_cong) (simp add: delete_old_lookup[OF assms(1)])
qed

lemma get_pending_after_delete_old:
  assumes "wf st"
  shows "fst (get_pending_messages env None (delete_old_messages st))
           = List.map_filter (deliver env (get_accepted_types st) st)
               (drop (get_pending_offset st + get_pending_offset st) (unflagged st))"
proof -
  let ?k = "get_pending_offset st"
  let ?d = "delete_old_messages st"
  have w: "wf ?d" using assms by (rule delete_old_wf)
  have m: "meta ?d = meta st" using assms by (rule delete_old_meta)
  have sub: "set (drop (?k + ?k) (unflagged st)) \<subseteq> set (drop ?k (unflagged st))"
    by (metis drop_drop set_drop_subset)
  have "fst (get_pending_messages env None ?d)
          = List.map_filter (deliver env (get_accepted_types st) ?d) (drop (?k + ?k) (unflagged st))"
    by (simp add: get_pending_messages_fst[OF w] take_max_def meta_pending_offset[OF m]
        meta_accepted_types[OF m] delete_old_unflagged[OF assms])
  also have "\<dots> = List.map_filter (deliver env (get_accepted_types st) st) (drop (?k + ?k) (unflagged st))"
    using sub by (intro map_filter_cong deliver_after_delete_old[OF assms]) auto
  finally show ?thesis .
qed

lemma get_pending_after_delete_old_reset:
  assumes "wf st"
  shows "fst (get_pending_messages env None (set_pending_offset 0 (delete_old_messages st)))
           = fst (get_pending_messages env None st)"
proof -
  let ?k = "get_pending_offset st"
  let ?d = "delete_old_messages st"
  have w: "wf (set_pending_offset 0 ?d)" using assms by (simp add: delete_old_wf)
  have m: "meta ?d = meta st" using assms by (rule delete_old_meta)
  have "fst (get_pending_messages env None (set_pending_offset 0 ?d))
          = List.map_filter (deliver env (get_accepted_types st) ?d) (drop ?k (unflagged st))"
    by (simp add: get_pending_messages_fst[OF w] take_max_def
        meta_accepted_types[OF m] delete_old_unflagged[OF assms])
  also have "\<dots> = List.map_filter (deliver env (get_accepted_types st) st) (drop ?k (unflagged st))"
    by (intro map_filter_cong deliver_after_delete_old[OF assms])
  also have "\<dots> = fst (get_pending_messages env None st)"
    by (simp add: get_pending_messages_fst[OF assms] take_max_def)
  finally show ?thesis .
qed

text \<open>
  Claim C2, as stated, fails in its last part: \<open>delete_old_messages\<close> leaves the pending
  offset as it was, so \<open>get_pending_messages\<close> afterwards skips that many of the
  surviving unflagged records. In the example store (pending offset 1) the record
  \<open>1/0\<close> is at the pending offset and is returned before the deletion; after the deletion
  it is still on disk and is not returned.
\<close>

theorem get_pending_after_delete_old_counterexample:
  "fst (get_pending_messages example_env None example_store)
     = [\<lparr>msg_type = ''a'', msg_api = Some ''3.2'', msg_fields = []\<rparr>]
   \<and> lookup (delete_old_messages example_store) (1, Record 0 [])
     = Some \<lparr>st_ino = 102, content = ''ma''\<rparr>
   \<and> fst (get_pending_messages example_env None (delete_old_messages example_store)) = []"
  by code_simp

text \<open>
  Claim C2, amended. On every well-formed store \<open>delete_old_messages\<close> removes exactly the
  first \<open>pending_offset\<close> unflagged records: every walk afterwards is the walk before
  without them, no removed record is HELD or BROKEN, every other path keeps its file, and
  the metadata (the pending offset included) are unchanged. An unbounded
  \<open>get_pending_messages\<close> afterwards never returns a removed record: it returns the
  deliverable records from unflagged position \<open>2 * pending_offset\<close> on, and once the
  caller has reset the pending offset to 0 it returns exactly the messages it returned
  before the deletion.
\<close>

theorem delete_old_messages_frame:
  assumes "wf st"
  shows "walk_list ex (delete_old_messages st)
           = filter (\<lambda>p. p \<notin> set (take (get_pending_offset st) (unflagged st))) (walk_list ex st)
       \<and> (\<forall>p \<in> set (take (get_pending_offset st) (unflagged st)).
             HELD \<notin> set (get_flags p) \<and> BROKEN \<notin> set (get_flags p))
       \<and> lookup (delete_old_messages st) q
           = (if q \<in> set (take (get_pending_offset st) (unflagged st)) then None else lookup st q)
       \<and> meta (delete_old_messages st) = meta st
       \<and> fst (get_pending_messages env None (delete_old_messages st))
           = List.map_filter (deliver env (get_accepted_types st) st)
               (drop (get_pending_offset st + get_pending_offset st) (unflagged st))
       \<and> fst (get_pending_messages env None (set_pending_offset 0 (delete_old_messages st)))
           = fst (get_pending_messages env None st)"
proof -
  have "\<forall>p \<in> set (take (get_pending_offset st) (unflagged st)).
             HELD \<notin> set (get_flags p) \<and> BROKEN \<notin> set (get_flags p)"
    using unflagged_flags in_set_takeD by metis
  then show ?thesis
    using delete_old_walk[OF assms, of ex] delete_old_lookup[OF assms, of q]
      delete_old_meta[OF assms] get_pending_after_delete_old[OF assms, of env]
      get_pending_after_delete_old_reset[OF assms, of env]
    by (intro conjI)
qed

theorem delete_old_messages_frame_witness:
  "wf example_store
   \<and> walk_list [] (delete_old_messages example_store)
       = filter (\<lambda>p. p \<notin> set (take (get_pending_offset example_store) (unflagged example_store)))
           (walk_list [] example_store)
   \<and> lookup (delete_old_messages example_store) (0, Record 1 ''h'')
       = lookup example_store (0, Record 1 ''h'')
   \<and> fst (get_pending_messages example_env None
            (set_pending_offset 0 (delete_old_messages example_store)))
       = fst (get_pending_messages example_env None example_store)"
proof -
  have w: "wf example_store" by code_simp
  have n: "(0, Record 1 ''h'') \<notin> set (take (get_pending_offset example_store) (unflagged example_store))"
    by code_simp
  note t = delete_old_messages_frame[OF w, of "[]" "(0, Record 1 ''h'')" example_env]
  have 1: "walk_list [] (delete_old_messages example_store)
       = filter (\<lambda>p. p \<notin> set (take (get_pending_offset example_store) (unflagged example_store)))
           (walk_list [] example_store)"
    using t by (elim conjE)
  have 2: "lookup (delete_old_messages example_store) (0, Record 1 ''h'')
       = lookup example_store (0, Record 1 ''h'')"
    using t n by (elim conjE) simp
  have 3: "fst (get_pending_messages example_env None
            (set_pending_offset 0 (delete_old_messages example_store)))
       = fst (get_pending_messages example_env None example_store)"
    using t by (elim conjE)
  show ?thesis using w 1 2 3 by (intro conjI)
qed

lemma wf_makedirs: "wf st \<Longrightarrow> d \<notin> set (shards st) \<Longrightarrow> wf (makedirs d st)"
  by (auto simp: wf_def makedirs_def)

lemma shards_makedirs [simp]: "shards (makedirs d st) = shards st @ [d]"
  by (simp add: makedirs_def)

lemma next_ino_makedirs [simp]: "next_ino (makedirs d st) = next_ino st"
  by (simp add: makedirs_def)

lemma sorted_le_last: "sorted xs \<Longrightarrow> x \<in> set xs \<Longrightarrow> x \<le> last xs"
  by (induction xs) auto

lemma last_sort_ge: "xs \<noteq> [] \<Longrightarrow> x \<in> set xs \<Longrightarrow> x \<le> last (sort xs)"
proof -
  assume "xs \<noteq> []" "x \<in> set xs"
  then have "x \<in> set (sort xs)" by simp
  then show ?thesis using sorted_sort sorted_le_last by blast
qed

lemma last_sort_mem: "xs \<noteq> [] \<Longrightarrow> last (sort xs) \<in> set xs"
proof -
  assume "xs \<noteq> []"
  then have "sort xs \<noteq> []" by (metis length_sort length_0_conv)
  then have "last (sort xs) \<in> set (sort xs)" by (rule last_in_set)
  then show ?thesis by simp
qed

lemma gsf_number_le_last:
  assumes "fn \<in> set (get_sorted_filenames st d)"
  shows "number fn \<le> number (last (get_sorted_filenames st d))"
proof -
  let ?fns = "get_sorted_filenames st d"
  have ne: "?fns \<noteq> []" using assms by auto
  have "sorted (map number ?fns)" by (rule sorted_numbers)
  moreover have "number fn \<in> set (map number ?fns)" using assms by simp
  ultimately have "number fn \<le> last (map number ?fns)" using sorted_le_last by blast
  then show ?thesis using ne by (simp add: last_map)
qed

lemma record_in_gsf:
  "lookup st (d, Record m fl) \<noteq> None \<Longrightarrow> Record m fl \<in> set (get_sorted_filenames st d)"
  by (simp add: set_get_sorted_filenames)

lemma in_gsf:
  "lookup st q \<noteq> None \<Longrightarrow> \<not> endswith_tmp (snd q) \<Longrightarrow> fst q = d \<Longrightarrow>
   snd q \<in> set (get_sorted_filenames st d)"
  by (cases q) (simp add: set_get_sorted_filenames)

lemma wf_no_files_outside:
  "wf st \<Longrightarrow> d \<notin> set (shards st) \<Longrightarrow> lookup st (d, fn) = None"
  using wf_dir_exists by fastforce

lemma gnmf_spec:
  assumes "wf st" and "get_next_message_filename st = (p, st')"
  shows "wf st' \<and> lookup st' = lookup st \<and> meta st' = meta st \<and> next_ino st' = next_ino st
       \<and> fst p \<in> set (shards st') \<and> set (shards st) \<subseteq> set (shards st')
       \<and> fresh_for st p"
proof (cases "shards st = []")
  case True
  then have nofiles: "\<And>q. lookup st q = None"
    using wf_no_files_outside[OF assms(1)] by (metis empty_iff empty_set prod.collapse)
  then have "get_sorted_filenames (makedirs 0 st) 0 = []"
    by (simp add: get_sorted_filenames_def listdir_empty_iff[THEN iffD2])
  then have "get_next_message_filename st = ((0, Record 0 []), makedirs 0 st)"
    using True by (simp add: get_next_message_filename_def get_sorted_dirs_def Let_def)
  then have r: "p = (0, Record 0 [])" "st' = makedirs 0 st"
    using assms(2) by simp_all
  have "wf st'" using assms(1) True r by (simp add: wf_makedirs)
  moreover have "fresh_for st p" using nofiles by (simp add: fresh_for_def r)
  ultimately show ?thesis using r by (auto simp: fun_eq_iff)
next
  case False
  let ?d = "last (sort (shards st))"
  let ?fns = "get_sorted_filenames st ?d"
  have dmem: "?d \<in> set (shards st)" using False by (rule last_sort_mem)
  have dmax: "\<And>x. x \<in> set (shards st) \<Longrightarrow> x \<le> ?d" using False by (rule last_sort_ge)
  have dirs: "\<And>q. lookup st q \<noteq> None \<Longrightarrow> fst q \<le> ?d"
    using wf_dir_exists[OF assms(1)] dmax by blast
  have sd: "get_sorted_dirs st \<noteq> []" using False
    by (metis get_sorted_dirs_def length_sort length_0_conv)
  show ?thesis
  proof (cases "?fns = []")
    case True
    then have "get_next_message_filename st = ((?d, Record 0 []), st)"
      using sd by (simp add: get_next_message_filename_def get_sorted_dirs_def Let_def)
    then have r: "p = (?d, Record 0 [])" "st' = st"
      using assms(2) by simp_all
    have "fresh_for st p"
      unfolding fresh_for_def r
    proof (intro exI[of _ 0] conjI allI impI)
      fix q assume q: "lookup st q \<noteq> None" "\<not> endswith_tmp (snd q)"
      have "fst q \<noteq> ?d"
      proof
        assume "fst q = ?d"
        then have "snd q \<in> set ?fns" using q in_gsf by blast
        then show False using True by simp
      qed
      then have "fst q < ?d" using dirs[OF q(1)] by simp
      then show "ordinal q < ordinal (?d, Record 0 [])" by (simp add: ordinal_def less_prod_def)
    qed simp
    then show ?thesis using r assms(1) dmem by simp
  next
    case ne: False
    show ?thesis
    proof (cases "length ?fns < directory_size st")
      case True
      then have "get_next_message_filename st = ((?d, Record (number (last ?fns) + 1) []), st)"
        using sd ne by (simp add: get_next_message_filename_def get_sorted_dirs_def Let_def)
      then have r: "p = (?d, Record (number (last ?fns) + 1) [])" "st' = st"
        using assms(2) by simp_all
      have "fresh_for st p"
        unfolding fresh_for_def r
      proof (intro exI[of _ "number (last ?fns) + 1"] conjI allI impI)
        fix q assume q: "lookup st q \<noteq> None" "\<not> endswith_tmp (snd q)"
        show "ordinal q < ordinal (?d, Record (number (last ?fns) + 1) [])"
        proof (cases "fst q = ?d")
          case True
          then have "snd q \<in> set ?fns" using q in_gsf by blast
          then have "number (snd q) \<le> number (last ?fns)" by (rule gsf_number_le_last)
          then show ?thesis using True by (simp add: ordinal_def less_prod_def)
        next
          case False
          then have "fst q < ?d" using dirs[OF q(1)] by simp
          then show ?thesis by (simp add: ordinal_def less_prod_def)
        qed
      qed simp
      then show ?thesis using r assms(1) dmem by simp
    next
      case False
      then have "get_next_message_filename st = ((?d + 1, Record 0 []), makedirs (?d + 1) st)"
        using sd ne by (simp add: get_next_message_filename_def get_sorted_dirs_def Let_def)
      then have r: "p = (?d + 1, Record 0 [])" "st' = makedirs (?d + 1) st"
        using assms(2) by simp_all
      have notin: "?d + 1 \<notin> set (shards st)" using dmax by fastforce
      have "fresh_for st p"
        unfolding fresh_for_def r
      proof (intro exI[of _ 0] conjI allI impI)
        fix q assume q: "lookup st q \<noteq> None" "\<not> endswith_tmp (snd q)"
        have "fst q \<le> ?d" using dirs[OF q(1)] .
        then show "ordinal q < ordinal (?d + 1, Record 0 [])"
          by (simp add: ordinal_def less_prod_def)
      qed simp
      moreover have "wf st'" using assms(1) notin r by (simp add: wf_makedirs)
      ultimately show ?thesis using r by (auto simp: fun_eq_iff)
    qed
  qed
qed

lemma add_eq:
  "add env m st = (case coerce_message env m of
                     Inl e \<Rightarrow> (Inl e, st)
                   | Inr m' \<Rightarrow> store_message env m' st)"
  by (simp add: add_def coerce_message_def store_message_def split: option.splits)

lemma pkey_tmp_inj: "pkey q = pkey (d, Temp n) \<Longrightarrow> q = (d, Temp n)"
  by (cases q, cases "snd q") (auto simp: pkey_def)

lemma map_ekey_content:
  "map ekey (map (\<lambda>e. if fst e = p then (p, g (snd e)) else e) xs) = map ekey xs"
  by (induction xs) (auto simp: ekey_def)

lemma distinct_map_content:
  "distinct (map ekey xs) \<Longrightarrow>
   distinct (map ekey (map (\<lambda>e. if fst e = p then (p, g (snd e)) else e) xs))"
  unfolding map_ekey_content .

lemma wf_write_tmp:
  assumes "wf st" "d \<in> set (shards st)"
  shows "wf (write_file (d, Temp n) data st)"
proof (cases "lookup st (d, Temp n)")
  case (Some f)
  have "distinct (map ekey (map (\<lambda>e. if fst e = (d, Temp n) then ((d, Temp n), (snd e)\<lparr>content := data\<rparr>) else e) (files st)))"
    using assms(1) by (intro distinct_map_content) (simp add: wf_def)
  then show ?thesis using Some assms by (auto simp: wf_def write_file_def)
next
  case None
  have "pkey (d, Temp n) \<notin> ekey ` set (files st)"
  proof
    assume "pkey (d, Temp n) \<in> ekey ` set (files st)"
    then obtain e where e: "e \<in> set (files st)" "ekey e = pkey (d, Temp n)" by auto
    then have "fst e = (d, Temp n)" using pkey_tmp_inj by (simp add: ekey_def)
    then show False using None e(1) by (metis image_eqI lookup_None_iff)
  qed
  then show ?thesis using None assms by (auto simp: wf_def write_file_def)
qed

lemma next_ino_rename [simp]: "next_ino (rename a b st) = next_ino st"
  by (simp add: rename_def)

lemma store_message_spec:
  assumes "wf st"
  shows "\<exists>p f st'. store_message env m st = (Inr (st_ino f), st')
       \<and> wf st' \<and> meta st' = meta st
       \<and> lookup st' p = Some f \<and> content f = dumps env m
       \<and> \<not> endswith_tmp (snd p)
       \<and> get_flags p = (if accepts st (msg_type m) then [] else [HELD])
       \<and> lookup st p = None
       \<and> (\<forall>q. lookup st q \<noteq> None \<longrightarrow> \<not> endswith_tmp (snd q) \<longrightarrow> ordinal q < ordinal p)
       \<and> (\<forall>q. \<not> endswith_tmp (snd q) \<longrightarrow> q \<noteq> p \<longrightarrow> lookup st' q = lookup st q)
       \<and> fst p \<in> set (shards st') \<and> set (shards st) \<subseteq> set (shards st')"
proof -
  obtain fn st1 where g: "get_next_message_filename st = (fn, st1)"
    by (cases "get_next_message_filename st")
  note s = gnmf_spec[OF assms g]
  have w1: "wf st1" and l1: "lookup st1 = lookup st" and m1: "meta st1 = meta st"
    and d1: "fst fn \<in> set (shards st1)" and sh1: "set (shards st) \<subseteq> set (shards st1)"
    and fr: "fresh_for st fn"
    using s by simp_all
  obtain n where n: "snd fn = Record n []"
    and small: "\<And>q. lookup st q \<noteq> None \<Longrightarrow> \<not> endswith_tmp (snd q) \<Longrightarrow> ordinal q < ordinal fn"
    using fr unfolding fresh_for_def by blast
  obtain d where fn: "fn = (d, Record n [])" using n by (cases fn) simp
  let ?tmp = "(d, Temp n)"
  let ?data = "dumps env m"
  let ?f = "case lookup st ?tmp of Some f \<Rightarrow> f\<lparr>content := ?data\<rparr>
            | None \<Rightarrow> \<lparr>st_ino = next_ino st1, content = ?data\<rparr>"
  let ?st2 = "write_file ?tmp ?data st1"
  let ?st3 = "rename ?tmp fn ?st2"
  have nofn: "\<And>fl. lookup st (d, Record n fl) = None"
  proof (rule ccontr)
    fix fl assume "lookup st (d, Record n fl) \<noteq> None"
    then have "ordinal (d, Record n fl) < ordinal fn" using small by simp
    then show False by (simp add: fn ordinal_def)
  qed
  have tn: "tmp_name fn = ?tmp" by (simp add: fn)
  have wt: "write_tmp env m st = (fn, ?st2)"
    by (simp add: write_tmp_def g tn)
  have l2: "\<And>q. lookup ?st2 q = (if q = ?tmp then Some ?f else lookup st q)"
    by (simp add: lookup_write_file l1)
  have w2: "wf ?st2" using w1 d1 by (simp add: wf_write_tmp fn)
  have ne3: "?tmp \<noteq> fn" by (simp add: fn)
  have l3: "\<And>q. lookup ?st3 q = (if q = fn then Some ?f else if q = ?tmp then None else lookup st q)"
    using ne3 by (simp add: lookup_rename[of ?tmp fn ?st2] l2)
  have w3: "wf ?st3"
  proof (rule wf_rename[OF w2])
    show "fst fn \<in> set (shards ?st2)" using d1 by simp
    show "\<forall>e\<in>set (files ?st2). ekey e = pkey fn \<longrightarrow> fst e = ?tmp \<or> fst e = fn"
    proof (intro ballI impI)
      fix e assume e: "e \<in> set (files ?st2)" "ekey e = pkey fn"
      then have k: "fst (fst e) = d" "\<not> endswith_tmp (snd (fst e))" "number (snd (fst e)) = n"
        by (simp_all add: ekey_def pkey_def fn)
      have "lookup ?st2 (fst e) \<noteq> None" using e(1) by (auto simp: lookup_None_iff)
      then have "lookup st (fst e) \<noteq> None" using k(2) by (auto simp: l2 split: if_splits)
      then have "ordinal (fst e) < ordinal fn" using small k(2) by simp
      then show "fst e = ?tmp \<or> fst e = fn" using k by (simp add: ordinal_def fn)
    qed
  qed
  have m3: "meta ?st3 = meta st" using m1 by simp
  have acc: "accepts ?st3 (msg_type m) = accepts st (msg_type m)"
    using meta_accepted_types[OF m3] by (simp add: accepts_def)
  show ?thesis
  proof (cases "accepts st (msg_type m)")
    case True
    have r: "store_message env m st = (Inr (st_ino ?f), ?st3)"
      using True by (simp add: store_message_def Let_def wt tn acc stat_ino_def l3 del: lookup_rename)
    show ?thesis
    proof (intro exI[of _ fn] exI[of _ ?f] exI[of _ ?st3] conjI)
      show "store_message env m st = (Inr (st_ino ?f), ?st3)" by (rule r)
      show "wf ?st3" by (rule w3)
      show "meta ?st3 = meta st" by (rule m3)
      show "lookup ?st3 fn = Some ?f" by (simp add: l3)
      show "content ?f = dumps env m" by (simp split: option.splits)
      show "\<not> endswith_tmp (snd fn)" by (simp add: fn)
      show "get_flags fn = (if accepts st (msg_type m) then [] else [HELD])"
        using True by (simp add: fn)
      show "lookup st fn = None" using nofn by (simp add: fn)
      show "\<forall>q. lookup st q \<noteq> None \<longrightarrow> \<not> endswith_tmp (snd q) \<longrightarrow> ordinal q < ordinal fn"
        using small by blast
      show "\<forall>q. \<not> endswith_tmp (snd q) \<longrightarrow> q \<noteq> fn \<longrightarrow> lookup ?st3 q = lookup st q"
      proof (intro allI impI)
        fix q assume q: "\<not> endswith_tmp (snd q)" "q \<noteq> fn"
        then have "q \<noteq> ?tmp" by auto
        then show "lookup ?st3 q = lookup st q" using q(2) by (simp add: l3)
      qed
      show "fst fn \<in> set (shards ?st3)" using d1 by simp
      show "set (shards st) \<subseteq> set (shards ?st3)" using sh1 by simp
    qed
  next
    case False
    let ?p = "with_flags fn [HELD]"
    let ?st4 = "rename fn ?p ?st3"
    have p: "?p = (d, Record n [HELD])" by (simp add: with_flags_def fn)
    have ne: "fn \<noteq> ?p" "?p \<noteq> ?tmp" "fn \<noteq> ?tmp" by (simp_all add: with_flags_def fn)
    have l4: "\<And>q. lookup ?st4 q = (if q = ?p then Some ?f else if q = fn \<or> q = ?tmp then None
                                     else lookup st q)"
      using ne by (simp add: lookup_rename[of fn ?p ?st3] l3)
    have r: "store_message env m st = (Inr (st_ino ?f), ?st4)"
      using False by (simp add: store_message_def Let_def wt tn acc set_flags_eq stat_ino_def l4 del: lookup_rename)
    have "\<not> endswith_tmp (snd fn)" by (simp add: fn)
    then have w4: "wf ?st4" using w3 by (intro wf_reflag)
    show ?thesis
    proof (intro exI[of _ ?p] exI[of _ ?f] exI[of _ ?st4] conjI)
      show "store_message env m st = (Inr (st_ino ?f), ?st4)" by (rule r)
      show "wf ?st4" by (rule w4)
      show "meta ?st4 = meta st" using m3 by simp
      show "lookup ?st4 ?p = Some ?f" by (simp add: l4)
      show "content ?f = dumps env m" by (simp split: option.splits)
      show "\<not> endswith_tmp (snd ?p)" by simp
      show "get_flags ?p = (if accepts st (msg_type m) then [] else [HELD])"
        using False by simp
      show "lookup st ?p = None" using nofn by (simp add: p)
      show "\<forall>q. lookup st q \<noteq> None \<longrightarrow> \<not> endswith_tmp (snd q) \<longrightarrow> ordinal q < ordinal ?p"
        using small by simp
      show "\<forall>q. \<not> endswith_tmp (snd q) \<longrightarrow> q \<noteq> ?p \<longrightarrow> lookup ?st4 q = lookup st q"
      proof (intro allI impI)
        fix q assume q: "\<not> endswith_tmp (snd q)" "q \<noteq> ?p"
        then have "q \<noteq> ?tmp" by auto
        moreover have "lookup st fn = None" using nofn by (simp add: fn)
        ultimately show "lookup ?st4 q = lookup st q"
          using q(2) by (cases "q = fn") (simp_all add: l4)
      qed
      show "fst ?p \<in> set (shards ?st4)" using d1 by simp
      show "set (shards st) \<subseteq> set (shards ?st4)" using sh1 by simp
    qed
  qed
qed

lemma walk_list_append_new:
  assumes "wf st" "wf st'" "lookup st' p \<noteq> None" "\<not> endswith_tmp (snd p)"
    and "fst p \<in> set (shards st')" "set (shards st) \<subseteq> set (shards st')"
    and small: "\<forall>q. lookup st q \<noteq> None \<longrightarrow> \<not> endswith_tmp (snd q) \<longrightarrow> ordinal q < ordinal p"
    and frame: "\<forall>q. \<not> endswith_tmp (snd q) \<longrightarrow> q \<noteq> p \<longrightarrow> lookup st' q = lookup st q"
  shows "walk_list ex st' = walk_list ex st @ (if yielded ex p then [p] else [])"
proof (rule walk_listI[OF assms(2)])
  have lt: "\<forall>q\<in>set (walk_list ex st). ordinal q < ordinal p"
    using small by (auto simp: set_walk_list)
  show "sorted_wrt (<) (map ordinal (walk_list ex st @ (if yielded ex p then [p] else [])))"
    using walk_list_sorted[OF assms(1), of ex] lt by (simp add: sorted_wrt_append)
  have nop: "lookup st p = None"
  proof (rule ccontr)
    assume "lookup st p \<noteq> None"
    then have "ordinal p < ordinal p" using small assms(4) by blast
    then show False by simp
  qed
  show "set (walk_list ex st @ (if yielded ex p then [p] else []))
          = {q. fst q \<in> set (shards st') \<and> \<not> endswith_tmp (snd q) \<and> lookup st' q \<noteq> None \<and> yielded ex q}"
    (is "?L = ?R")
  proof
    show "?L \<subseteq> ?R"
    proof
      fix q assume "q \<in> ?L"
      then consider "q \<in> set (walk_list ex st)" | "q = p" "yielded ex p" by (auto split: if_splits)
      then show "q \<in> ?R"
      proof cases
        case 1
        then have q: "fst q \<in> set (shards st)" "\<not> endswith_tmp (snd q)" "lookup st q \<noteq> None"
          "yielded ex q" by (auto simp: set_walk_list)
        then have "q \<noteq> p" using nop by auto
        then have "lookup st' q = lookup st q" using frame q(2) by blast
        then show ?thesis using q assms(6) by auto
      next
        case 2
        then show ?thesis using assms(3,4,5) by simp
      qed
    qed
    show "?R \<subseteq> ?L"
    proof
      fix q assume "q \<in> ?R"
      then have q: "\<not> endswith_tmp (snd q)" "lookup st' q \<noteq> None" "yielded ex q" by auto
      show "q \<in> ?L"
      proof (cases "q = p")
        case True then show ?thesis using q by simp
      next
        case False
        then have "lookup st' q = lookup st q" using frame q(1) by blast
        then have "lookup st q \<noteq> None" using q(2) by simp
        then have "q \<in> set (walk_list ex st)"
          using q wf_dir_exists[OF assms(1)] by (auto simp: set_walk_list)
        then show ?thesis by simp
      qed
    qed
  qed
qed

lemma store_message_walk:
  assumes "wf st"
  shows "\<exists>p f. fst (store_message env m st) = Inr (st_ino f)
       \<and> wf (snd (store_message env m st))
       \<and> meta (snd (store_message env m st)) = meta st
       \<and> lookup (snd (store_message env m st)) p = Some f \<and> content f = dumps env m
       \<and> get_flags p = (if accepts st (msg_type m) then [] else [HELD])
       \<and> p \<notin> set (walk_list [] st)
       \<and> (\<forall>ex. walk_list ex (snd (store_message env m st))
                  = walk_list ex st @ (if yielded ex p then [p] else []))
       \<and> (\<forall>q\<in>set (walk_list [] st). lookup (snd (store_message env m st)) q = lookup st q)"
proof -
  obtain p f st' where s: "store_message env m st = (Inr (st_ino f), st')"
    "wf st'" "meta st' = meta st" "lookup st' p = Some f" "content f = dumps env m"
    "\<not> endswith_tmp (snd p)" "get_flags p = (if accepts st (msg_type m) then [] else [HELD])"
    "lookup st p = None"
    "\<forall>q. lookup st q \<noteq> None \<longrightarrow> \<not> endswith_tmp (snd q) \<longrightarrow> ordinal q < ordinal p"
    "\<forall>q. \<not> endswith_tmp (snd q) \<longrightarrow> q \<noteq> p \<longrightarrow> lookup st' q = lookup st q"
    "fst p \<in> set (shards st')" "set (shards st) \<subseteq> set (shards st')"
    using store_message_spec[OF assms, of env m] by blast
  have np: "p \<notin> set (walk_list [] st)" using s(8) by (simp add: set_walk_list)
  have w: "\<forall>ex. walk_list ex st' = walk_list ex st @ (if yielded ex p then [p] else [])"
    using walk_list_append_new[OF assms s(2) _ s(6) s(11) s(12) s(9) s(10)] s(4) by simp
  have fr: "\<forall>q\<in>set (walk_list [] st). lookup st' q = lookup st q"
  proof
    fix q assume q: "q \<in> set (walk_list [] st)"
    then have "\<not> endswith_tmp (snd q)" by (simp add: set_walk_list)
    moreover have "q \<noteq> p" using q np by blast
    ultimately show "lookup st' q = lookup st q" using s(10) by blast
  qed
  show ?thesis
    unfolding s(1) using s(2,3,4,5,7) np w fr by (intro exI[of _ p] exI[of _ f]) simp
qed

lemma coerce_message_cases:
  "(coerce_message env m = Inl KeyError \<longleftrightarrow> schemas env (msg_type m) = None)
   \<and> (coerce_message env m = Inl InvalidError
        \<longleftrightarrow> (\<exists>c. schemas env (msg_type m) = Some c \<and> c m = None))
   \<and> coerce_message env m \<noteq> Inl OSError"
  by (auto simp: coerce_message_def split: option.splits)

lemma add_failure:
  "coerce_message env m = Inl e \<Longrightarrow> add env m st = (Inl e, st)"
  by (simp add: add_eq)

lemma add_success:
  "coerce_message env m = Inr m' \<Longrightarrow> add env m st = store_message env m' st"
  by (simp add: add_eq)

text \<open>
  Claim C8. \<open>add\<close> fails exactly when the schema registry has no schema for the message's
  type (the \<open>KeyError\<close> of the registry lookup) or the schema rejects the message's fields
  (\<open>InvalidError\<close>); these two are the specification's SchemaError, and no other error
  arises on a well-formed store. On such a failure the store is returned as it was. On
  success exactly one new record appears: the walk over all records is the old walk with
  the new record's path at the end, the returned identifier is that file's inode, every
  old record keeps its file, and the sequence, the pending offset and the accepted types
  are unchanged.
\<close>

theorem add_schema_error:
  assumes "wf st"
  shows "(fst (add env m st) = Inl KeyError \<longleftrightarrow> schemas env (msg_type m) = None)
       \<and> (fst (add env m st) = Inl InvalidError
            \<longleftrightarrow> (\<exists>c. schemas env (msg_type m) = Some c \<and> c m = None))
       \<and> fst (add env m st) \<noteq> Inl OSError
       \<and> ((\<exists>e. fst (add env m st) = Inl e) \<longrightarrow> snd (add env m st) = st)
       \<and> (\<forall>message_id. fst (add env m st) = Inr message_id \<longrightarrow>
            (\<exists>p. walk_list [] (snd (add env m st)) = walk_list [] st @ [p]
                \<and> p \<notin> set (walk_list [] st)
                \<and> stat_ino (snd (add env m st)) p = Some message_id
                \<and> (\<forall>q\<in>set (walk_list [] st). lookup (snd (add env m st)) q = lookup st q)
                \<and> p_sequence (snd (add env m st)) = p_sequence st
                \<and> p_pending_offset (snd (add env m st)) = p_pending_offset st
                \<and> p_accepted_types (snd (add env m st)) = p_accepted_types st))"
proof (cases "coerce_message env m")
  case (Inl e)
  then have a: "add env m st = (Inl e, st)" by (rule add_failure)
  show ?thesis
    using coerce_message_cases[of env m] Inl unfolding a by simp
next
  case (Inr m')
  then have a: "add env m st = store_message env m' st" by (rule add_success)
  obtain p f where s: "fst (store_message env m' st) = Inr (st_ino f)"
    "meta (snd (store_message env m' st)) = meta st"
    "lookup (snd (store_message env m' st)) p = Some f"
    "p \<notin> set (walk_list [] st)"
    "\<forall>ex. walk_list ex (snd (store_message env m' st))
            = walk_list ex st @ (if yielded ex p then [p] else [])"
    "\<forall>q\<in>set (walk_list [] st). lookup (snd (store_message env m' st)) q = lookup st q"
    using store_message_walk[OF assms, of env m'] by blast
  have w: "walk_list [] (snd (store_message env m' st)) = walk_list [] st @ [p]"
    using s(5) by (simp add: yielded_def)
  have c: "schemas env (msg_type m) \<noteq> None"
    "\<not> (\<exists>c. schemas env (msg_type m) = Some c \<and> c m = None)"
    using coerce_message_cases[of env m] Inr by auto
  have succ: "\<exists>p. walk_list [] (snd (store_message env m' st)) = walk_list [] st @ [p]
                \<and> p \<notin> set (walk_list [] st)
                \<and> stat_ino (snd (store_message env m' st)) p = Some (st_ino f)
                \<and> (\<forall>q\<in>set (walk_list [] st). lookup (snd (store_message env m' st)) q = lookup st q)
                \<and> p_sequence (snd (store_message env m' st)) = p_sequence st
                \<and> p_pending_offset (snd (store_message env m' st)) = p_pending_offset st
                \<and> p_accepted_types (snd (store_message env m' st)) = p_accepted_types st"
    using w s(2,3,4,6) by (intro exI[of _ p]) (simp add: stat_ino_def meta_def)
  show ?thesis
    unfolding a using s(1) c succ by simp
qed

theorem add_schema_error_witness:
  "wf example_store
   \<and> fst (add example_env \<lparr>msg_type = ''zz'', msg_api = None, msg_fields = []\<rparr> example_store)
       = Inl KeyError
   \<and> snd (add example_env \<lparr>msg_type = ''zz'', msg_api = None, msg_fields = []\<rparr> example_store)
       = example_store
   \<and> fst (add example_env \<lparr>msg_type = ''b'', msg_api = None, msg_fields = []\<rparr> example_store)
       = Inr 105
   \<and> walk_list [] (snd (add example_env \<lparr>msg_type = ''b'', msg_api = None, msg_fields = []\<rparr>
                          example_store))
       = walk_list [] example_store @ [(2, Record 0 ''h'')]"
proof -
  have w: "wf example_store" by code_simp
  have k: "schemas example_env (msg_type \<lparr>msg_type = ''zz'', msg_api = None, msg_fields = []\<rparr>) = None"
    by (simp add: example_env_def)
  note t = add_schema_error[OF w, of example_env "\<lparr>msg_type = ''zz'', msg_api = None, msg_fields = []\<rparr>"]
  have 1: "fst (add example_env \<lparr>msg_type = ''zz'', msg_api = None, msg_fields = []\<rparr> example_store)
       = Inl KeyError"
    using conjunct1[OF t] k by simp
  have 2: "snd (add example_env \<lparr>msg_type = ''zz'', msg_api = None, msg_fields = []\<rparr> example_store)
       = example_store"
    using conjunct1[OF conjunct2[OF conjunct2[OF conjunct2[OF t]]]] 1 by blast
  have 3: "fst (add example_env \<lparr>msg_type = ''b'', msg_api = None, msg_fields = []\<rparr> example_store)
       = Inr 105"
    by code_simp
  have 4: "walk_list [] (snd (add example_env \<lparr>msg_type = ''b'', msg_api = None, msg_fields = []\<rparr>
                          example_store))
       = walk_list [] example_store @ [(2, Record 0 ''h'')]"
    by code_simp
  show ?thesis using w 1 2 3 4 by (intro conjI)
qed

lemma get_content_cong: "lookup st' p = lookup st p \<Longrightarrow> get_content st' p = get_content st p"
  by (simp add: get_content_def)

lemma add_contents:
  assumes "wf st"
  shows "wf (snd (add env m st)) \<and> meta (snd (add env m st)) = meta st
       \<and> map (get_content (snd (add env m st))) (walk_list [] (snd (add env m st)))
           = map (get_content st) (walk_list [] st) @ map (dumps env) (stored env [m])"
proof (cases "coerce_message env m")
  case (Inl e)
  then show ?thesis using assms by (simp add: add_failure stored_def map_filter_simps)
next
  case (Inr m')
  let ?st' = "snd (store_message env m' st)"
  obtain p f where s: "wf ?st'" "meta ?st' = meta st" "lookup ?st' p = Some f"
    "content f = dumps env m'"
    "\<forall>ex. walk_list ex ?st' = walk_list ex st @ (if yielded ex p then [p] else [])"
    "\<forall>q\<in>set (walk_list [] st). lookup ?st' q = lookup st q"
    using store_message_walk[OF assms, of env m'] by blast
  have w: "walk_list [] ?st' = walk_list [] st @ [p]" using s(5) by (simp add: yielded_def)
  have old: "map (get_content ?st') (walk_list [] st) = map (get_content st) (walk_list [] st)"
    using s(6) by (intro map_cong get_content_cong) auto
  have new: "get_content ?st' p = dumps env m'" using s(3,4) by (simp add: get_content_def)
  show ?thesis
    using s(1,2) w old new Inr
    by (simp add: add_success stored_def map_filter_simps)
qed

lemma stored_Cons: "stored env (m # ms) = stored env [m] @ stored env ms"
  by (simp add: stored_def map_filter_simps split: sum.splits)

lemma adds_contents:
  "wf st \<Longrightarrow> wf (adds env ms st) \<and> meta (adds env ms st) = meta st
       \<and> map (get_content (adds env ms st)) (walk_list [] (adds env ms st))
           = map (get_content st) (walk_list [] st) @ map (dumps env) (stored env ms)"
proof (induction ms arbitrary: st)
  case Nil
  then show ?case by (simp add: stored_def map_filter_simps)
next
  case (Cons m ms)
  note a = add_contents[OF Cons.prems, of env m]
  have w1: "wf (snd (add env m st))" using a by simp
  note ih = Cons.IH[OF w1]
  show ?case
    using a ih by (simp add: stored_Cons[of env m ms])
qed

lemma wf_empty: "files st = [] \<Longrightarrow> shards st = [] \<Longrightarrow> wf st"
  by (simp add: wf_def)

lemma walk_list_empty: "shards st = [] \<Longrightarrow> walk_list ex st = []"
  by (simp add: walk_list_def get_sorted_dirs_def)

lemma take_max_map: "map f (take_max mx n xs) = take_max mx n (map f xs)"
  by (simp add: take_max_def take_map split: option.splits)

lemma get_pending_paths:
  assumes "wf st"
  shows "fst (get_pending_messages env mx st)
           = map (\<lambda>p. the (deliver env (get_accepted_types st) st p)) (pending_paths env mx st)"
  by (simp add: get_pending_messages_fst[OF assms] pending_paths_def map_filter_def
      take_max_map comp_def)

lemma pending_paths_sorted:
  assumes "wf st"
  shows "sorted_wrt (<) (map ordinal (pending_paths env mx st))"
proof -
  have "sorted_wrt (\<lambda>p q. ordinal p < ordinal q) (unflagged st)"
    using walk_list_sorted[OF assms, of "[HELD, BROKEN]"]
    by (simp add: unflagged_def sorted_wrt_map)
  then have "sorted_wrt (\<lambda>p q. ordinal p < ordinal q)
      (filter (\<lambda>p. deliver env (get_accepted_types st) st p \<noteq> None)
          (drop (get_pending_offset st) (unflagged st)))"
    by (simp add: sorted_wrt_filter sorted_wrt_drop)
  then have "sorted_wrt (\<lambda>p q. ordinal p < ordinal q) (pending_paths env mx st)"
    by (simp add: pending_paths_def take_max_def sorted_wrt_take split: option.splits)
  then show ?thesis by (simp add: sorted_wrt_map)
qed

lemma pending_paths_length: "length (pending_paths env (Some m) st) \<le> m"
  by (simp add: pending_paths_def take_max_def)

text \<open>
  Claim C3. Let the store be produced from an empty hierarchy by any sequence of \<open>add\<close>
  calls (failing calls leave it unchanged). Then the walk over all records lists the
  stored messages in insertion order, with strictly increasing ordinals
  (shard number, file number). For every limit, \<open>get_pending_messages\<close> returns the
  decoded messages of \<open>pending_paths\<close>: the first \<open>limit\<close> (all, without a limit) of the
  unflagged records at or after the pending offset whose content decodes to a message of
  an accepted type, in strictly increasing ordinal order. HELD and BROKEN records are not
  among the unflagged ones, and records that fail to decode or have an unaccepted type
  (the ones reclassified during the call) are filtered out before the limit is applied,
  so they take none of the limit slots.
\<close>

theorem get_pending_messages_order:
  assumes "files st0 = []" and "shards st0 = []"
  shows "map (get_content (adds env ms st0)) (walk_list [] (adds env ms st0))
           = map (dumps env) (stored env ms)
       \<and> sorted_wrt (<) (map ordinal (walk_list [] (adds env ms st0)))
       \<and> fst (get_pending_messages env max_count (adds env ms st0))
           = map (\<lambda>p. the (deliver env (get_accepted_types st0) (adds env ms st0) p))
               (pending_paths env max_count (adds env ms st0))
       \<and> sorted_wrt (<) (map ordinal (pending_paths env max_count (adds env ms st0)))
       \<and> (\<forall>m. max_count = Some m
              \<longrightarrow> length (fst (get_pending_messages env max_count (adds env ms st0))) \<le> m)"
proof -
  let ?st = "adds env ms st0"
  have w0: "wf st0" using assms by (rule wf_empty)
  note a = adds_contents[OF w0, of env ms]
  have w: "wf ?st" using a by simp
  have acc: "get_accepted_types ?st = get_accepted_types st0"
    using a meta_accepted_types by blast
  have 1: "map (get_content ?st) (walk_list [] ?st) = map (dumps env) (stored env ms)"
    using a by (simp add: walk_list_empty[OF assms(2)])
  have 2: "sorted_wrt (<) (map ordinal (walk_list [] ?st))" using w by (rule walk_list_sorted)
  have 3: "fst (get_pending_messages env max_count ?st)
           = map (\<lambda>p. the (deliver env (get_accepted_types st0) ?st p))
               (pending_paths env max_count ?st)"
    using get_pending_paths[OF w, of env max_count] by (simp add: acc)
  have 4: "sorted_wrt (<) (map ordinal (pending_paths env max_count ?st))"
    using w by (rule pending_paths_sorted)
  have 5: "\<forall>m. max_count = Some m
              \<longrightarrow> length (fst (get_pending_messages env max_count ?st)) \<le> m"
    unfolding 3 using pending_paths_length by simp
  show ?thesis using 1 2 3 4 5 by (intro conjI)
qed

theorem get_pending_messages_order_witness:
  "files empty_store = [] \<and> shards empty_store = []
   \<and> map (get_content (adds example_env
            [\<lparr>msg_type = ''a'', msg_api = None, msg_fields = []\<rparr>,
             \<lparr>msg_type = ''b'', msg_api = None, msg_fields = []\<rparr>,
             \<lparr>msg_type = ''zz'', msg_api = None, msg_fields = []\<rparr>,
             \<lparr>msg_type = ''a'', msg_api = None, msg_fields = []\<rparr>,
             \<lparr>msg_type = ''a'', msg_api = None, msg_fields = []\<rparr>] empty_store))
        (walk_list [] (adds example_env
            [\<lparr>msg_type = ''a'', msg_api = None, msg_fields = []\<rparr>,
             \<lparr>msg_type = ''b'', msg_api = None, msg_fields = []\<rparr>,
             \<lparr>msg_type = ''zz'', msg_api = None, msg_fields = []\<rparr>,
             \<lparr>msg_type = ''a'', msg_api = None, msg_fields = []\<rparr>,
             \<lparr>msg_type = ''a'', msg_api = None, msg_fields = []\<rparr>] empty_store))
       = [''ma'', ''mb'', ''ma'', ''ma'']
   \<and> fst (get_pending_messages example_env (Some 1) (adds example_env
            [\<lparr>msg_type = ''a'', msg_api = None, msg_fields = []\<rparr>,
             \<lparr>msg_type = ''b'', msg_api = None, msg_fields = []\<rparr>,
             \<lparr>msg_type = ''zz'', msg_api = None, msg_fields = []\<rparr>,
             \<lparr>msg_type = ''a'', msg_api = None, msg_fields = []\<rparr>,
             \<lparr>msg_type = ''a'', msg_api = None, msg_fields = []\<rparr>] empty_store))
       = [\<lparr>msg_type = ''a'', msg_api = Some ''3.2'', msg_fields = []\<rparr>]"
proof -
  let ?ms = "[\<lparr>msg_type = ''a'', msg_api = None, msg_fields = []\<rparr>,
             \<lparr>msg_type = ''b'', msg_api = None, msg_fields = []\<rparr>,
             \<lparr>msg_type = ''zz'', msg_api = None, msg_fields = []\<rparr>,
             \<lparr>msg_type = ''a'', msg_api = None, msg_fields = []\<rparr>,
             \<lparr>msg_type = ''a'', msg_api = None, msg_fields = []\<rparr>]"
  have f: "files empty_store = []" and s: "shards empty_store = []"
    by (simp_all add: empty_store_def)
  note t = get_pending_messages_order[OF f s, of example_env ?ms "Some 1"]
  have st: "map (dumps example_env) (stored example_env ?ms) = [''ma'', ''mb'', ''ma'', ''ma'']"
    by code_simp
  have 1: "map (get_content (adds example_env ?ms empty_store))
             (walk_list [] (adds example_env ?ms empty_store)) = [''ma'', ''mb'', ''ma'', ''ma'']"
    using conjunct1[OF t] st by simp
  have 2: "fst (get_pending_messages example_env (Some 1) (adds example_env ?ms empty_store))
       = [\<lparr>msg_type = ''a'', msg_api = Some ''3.2'', msg_fields = []\<rparr>]"
    by code_simp
  show ?thesis using f s 1 2 by (intro conjI)
qed

lemma walk_messages_invariant_records:
  assumes "I s0" and "\<And>p s. I s \<Longrightarrow> \<not> endswith_tmp (snd p) \<Longrightarrow> I (body p s)"
  shows "I (walk_messages ex body store_of s0)"
proof -
  have inner: "I (fold (\<lambda>filename s. if yielded ex (d, filename) then body (d, filename) s else s) fns s)"
    if "I s" "\<forall>fn\<in>set fns. \<not> endswith_tmp fn" for d fns s
    using that assms(2) by (induction fns arbitrary: s) auto
  have gsf: "\<forall>fn\<in>set (get_sorted_filenames st d). \<not> endswith_tmp fn" for st d
    by (simp add: set_get_sorted_filenames)
  have "I (fold (\<lambda>message_dir s.
             fold (\<lambda>filename s.
                     if yielded ex (message_dir, filename)
                     then body (message_dir, filename) s else s)
                  (get_sorted_filenames (store_of s) message_dir) s) ds s)" if "I s" for ds s
    using that inner gsf by (induction ds arbitrary: s) auto
  then show ?thesis unfolding walk_messages_def using assms(1) by blast
qed

lemma reprocess_step_undecodable:
  "loads env (get_content st q) = None \<Longrightarrow>
   reprocess_step env po acc q (offset, st)
     = (if HELD \<in> set (get_flags q) then offset else offset + 1, st)"
  by (simp add: reprocess_step_def)

lemma fresh_for_less:
  "fresh_for st n \<Longrightarrow> lookup st p \<noteq> None \<Longrightarrow> \<not> endswith_tmp (snd p) \<Longrightarrow> ordinal p < ordinal n"
  unfolding fresh_for_def by blast

lemma fresh_for_ne:
  assumes "fresh_for st n" "lookup st p \<noteq> None"
  shows "p \<noteq> n \<and> p \<noteq> with_flags n fl"
proof (cases "endswith_tmp (snd p)")
  case True
  moreover have "\<not> endswith_tmp (snd n)" using assms(1) by (auto simp: fresh_for_def)
  moreover have "\<not> endswith_tmp (snd (with_flags n fl))" by simp
  ultimately show ?thesis by metis
next
  case False
  then have "ordinal p < ordinal n" using assms fresh_for_less by blast
  then have "ordinal p \<noteq> ordinal n" "ordinal p \<noteq> ordinal (with_flags n fl)" by simp_all
  then show ?thesis by metis
qed

lemma fresh_for_cong: "lookup st' = lookup st \<Longrightarrow> fresh_for st' n = fresh_for st n"
  by (simp add: fresh_for_def)

lemma fresh_for_record: "fresh_for st n \<Longrightarrow> \<not> endswith_tmp (snd n)"
  by (auto simp: fresh_for_def)

lemma wf_rename_fresh:
  assumes "wf st" "fresh_for st n" "fst n \<in> set (shards st)"
  shows "wf (rename q n st)"
proof (rule wf_rename[OF assms(1) assms(3)])
  show "\<forall>e\<in>set (files st). ekey e = pkey n \<longrightarrow> fst e = q \<or> fst e = n"
  proof (intro ballI impI)
    fix e assume e: "e \<in> set (files st)" and k: "ekey e = pkey n"
    have l: "lookup st (fst e) \<noteq> None" using e by (simp add: lookup_None_iff)
    have nt: "\<not> endswith_tmp (snd (fst e))" and o: "ordinal (fst e) = ordinal n"
      using k fresh_for_record[OF assms(2)] by (simp_all add: ekey_def pkey_def ordinal_def)
    have "ordinal (fst e) < ordinal n"
      using assms(2) l nt fresh_for_less by blast
    then show "fst e = q \<or> fst e = n" using o by simp
  qed
qed

lemma reprocess_step_keeps:
  assumes "wf st" "\<not> endswith_tmp (snd q)"
  shows "wf (snd (reprocess_step env po acc q (offset, st)))
       \<and> (lookup st p \<noteq> None \<longrightarrow> loads env (get_content st p) = None \<longrightarrow>
            lookup (snd (reprocess_step env po acc q (offset, st))) p = lookup st p)"
proof (cases "loads env (get_content st q)")
  case None
  then show ?thesis using assms by (simp add: reprocess_step_undecodable)
next
  case (Some m)
  show ?thesis
  proof (cases "HELD \<in> set (get_flags q)")
    case True
    show ?thesis
    proof (cases "msg_type m \<in> set acc")
      case False
      then show ?thesis using Some True assms by (simp add: reprocess_step_def)
    next
      case acc: True
      obtain n s1 where g: "get_next_message_filename st = (n, s1)"
        by (cases "get_next_message_filename st")
      note sp = gnmf_spec[OF assms(1) g]
      have w1: "wf s1" and l1: "lookup s1 = lookup st" and d1: "fst n \<in> set (shards s1)"
        and f0: "fresh_for st n"
        using sp by simp_all
      have f1: "fresh_for s1 n" using f0 l1 fresh_for_cong by metis
      let ?fl = "removeAll HELD (get_flags q)"
      let ?s2 = "rename q n s1"
      let ?s3 = "rename n (with_flags n ?fl) ?s2"
      have r: "reprocess_step env po acc q (offset, st) = (offset, ?s3)"
        using Some True acc g by (simp add: reprocess_step_def set_flags_eq)
      have w2: "wf ?s2" by (rule wf_rename_fresh[OF w1 f1 d1])
      have w3: "wf ?s3" by (rule wf_reflag[OF w2 fresh_for_record[OF f0]])
      have l3: "lookup ?s3 p = lookup st p"
        if ex: "lookup st p \<noteq> None" and un: "loads env (get_content st p) = None"
      proof -
        have "p \<noteq> q" using un Some by auto
        moreover have "p \<noteq> n" "p \<noteq> with_flags n ?fl"
          using fresh_for_ne[OF f0 ex] by simp_all
        ultimately show ?thesis by (simp add: lookup_rename l1)
      qed
      show ?thesis using w3 l3 by (simp add: r)
    qed
  next
    case False
    show ?thesis
    proof (cases "msg_type m \<notin> set acc \<and> offset \<ge> po")
      case nf: False
      then have "snd (reprocess_step env po acc q (offset, st)) = st"
        using Some False by (auto simp: reprocess_step_def)
      then show ?thesis using assms by simp
    next
      case True
      let ?fl = "get_flags q @ [HELD]"
      let ?s1 = "rename q (with_flags q ?fl) st"
      have r: "snd (reprocess_step env po acc q (offset, st)) = ?s1"
        using Some False True by (simp add: reprocess_step_def set_flags_eq)
      have w: "wf ?s1" by (rule wf_reflag[OF assms])
      have l: "lookup ?s1 p = lookup st p"
        if ex: "lookup st p \<noteq> None" and un: "loads env (get_content st p) = None"
      proof (cases "lookup st q = None")
        case True then show ?thesis by (simp add: rename_def)
      next
        case nn: False
        have pq: "p \<noteq> q" using un Some by auto
        obtain f where f: "(q, f) \<in> set (files st)"
          using nn lookup_Some_iff[OF assms(1)] by fastforce
        have "p \<noteq> with_flags q ?fl"
        proof
          assume "p = with_flags q ?fl"
          then have "ekey (q, f) = pkey p" using pkey_with_flags[OF assms(2)] by simp
          from wf_key_unique[OF assms(1) ex f this] show False using pq by simp
        qed
        then show ?thesis using pq by (simp add: lookup_rename)
      qed
      show ?thesis using w l by (simp add: r)
    qed
  qed
qed

lemma reprocess_holding_keeps:
  assumes "wf st"
  shows "wf (reprocess_holding env st)
       \<and> (lookup st p \<noteq> None \<longrightarrow> loads env (get_content st p) = None \<longrightarrow>
            lookup (reprocess_holding env st) p = lookup st p)"
proof -
  let ?I = "\<lambda>s::nat \<times> store. wf (snd s)
       \<and> (lookup st p \<noteq> None \<longrightarrow> loads env (get_content st p) = None \<longrightarrow>
            lookup (snd s) p = lookup st p)"
  have "?I (walk_messages [] (reprocess_step env (get_pending_offset st) (get_accepted_types st))
              snd (0, st))"
  proof (rule walk_messages_invariant_records[where I = ?I])
    show "?I (0, st)" using assms by simp
  next
    fix q :: path and s :: "nat \<times> store"
    assume i: "?I s" and q: "\<not> endswith_tmp (snd q)"
    obtain offset s1 where s: "s = (offset, s1)" by (cases s)
    have w: "wf s1" using i s by simp
    note k = reprocess_step_keeps[OF w q, of env "get_pending_offset st" "get_accepted_types st" offset p]
    show "?I (reprocess_step env (get_pending_offset st) (get_accepted_types st) q s)"
    proof (intro conjI impI)
      show "wf (snd (reprocess_step env (get_pending_offset st) (get_accepted_types st) q s))"
        using k s by simp
    next
      assume ex: "lookup st p \<noteq> None" and un: "loads env (get_content st p) = None"
      then have e1: "lookup s1 p = lookup st p" using i s by simp
      then have "get_content s1 p = get_content st p" by (simp add: get_content_def)
      then show "lookup (snd (reprocess_step env (get_pending_offset st) (get_accepted_types st) q s)) p
            = lookup st p"
        using k s e1 ex un by simp
    qed
  qed
  then show ?thesis by (simp add: reprocess_holding_def)
qed

lemma wf_accepted_types [simp]: "wf (st\<lparr>p_accepted_types := ts\<rparr>) = wf st"
  by (simp add: wf_def)

lemma lookup_accepted_types [simp]: "lookup (st\<lparr>p_accepted_types := ts\<rparr>) = lookup st"
  by (simp add: lookup_def fun_eq_iff)

lemma set_accepted_types_keeps:
  assumes "wf st" "lookup st p \<noteq> None" "loads env (get_content st p) = None"
  shows "lookup (set_accepted_types env types st) p = lookup st p"
proof -
  let ?st = "st\<lparr>p_accepted_types := sort (remdups types)\<rparr>"
  have "get_content ?st p = get_content st p" by (simp add: get_content_def)
  then show ?thesis
    using reprocess_holding_keeps[of ?st env p] assms by (simp add: set_accepted_types_def)
qed

lemma reached_take_max: "reached mx (take_max mx 0 xs) = reached mx xs"
  by (cases mx) (auto simp: reached_def take_max_def)

lemma map_filter_append: "List.map_filter f (xs @ ys) = List.map_filter f xs @ List.map_filter f ys"
  by (simp add: List.map_filter_def)

lemma map_filter_skip:
  "f p = None \<Longrightarrow> List.map_filter f (filter (\<lambda>q. q \<noteq> p) xs) = List.map_filter f xs"
  by (induction xs) (auto simp: map_filter_simps split: option.splits)

lemma fold_get_pending_undecodable:
  assumes d: "distinct (map ordinal (pre @ p # post))"
    and un: "loads env (get_content st p) = None"
    and ex: "lookup st p \<noteq> None"
    and nb: "BROKEN \<notin> set (get_flags p)"
  shows "lookup (snd (fold (get_pending_step env mx acc) (pre @ p # post) ([], st))) p
           = (if reached mx (List.map_filter (deliver env acc st) pre) then lookup st p else None)
       \<and> (\<not> reached mx (List.map_filter (deliver env acc st) pre) \<longrightarrow>
            lookup (snd (fold (get_pending_step env mx acc) (pre @ p # post) ([], st)))
                   (with_flags p (get_flags p @ [BROKEN])) = lookup st p)"
proof -
  let ?step = "get_pending_step env mx acc"
  let ?b = "with_flags p (get_flags p @ [BROKEN])"
  let ?s1 = "fold ?step pre ([], st)"
  let ?s2 = "?step p ?s1"
  have dpre: "distinct (map ordinal pre)" and opre: "\<forall>q\<in>set pre. ordinal q \<noteq> ordinal p"
    and opost: "\<forall>q\<in>set post. ordinal q \<noteq> ordinal p"
    using d by (simp, simp add: image_iff, metis, simp add: image_iff, metis)
  have opre': "\<forall>q\<in>set pre. ordinal q \<noteq> ordinal ?b" and opost': "\<forall>q\<in>set post. ordinal q \<noteq> ordinal ?b"
    using opre opost by simp_all
  have m1: "fst ?s1 = take_max mx 0 (List.map_filter (deliver env acc st) pre)"
    using fold_get_pending_fst[OF dpre, of env mx acc "[]" st] by simp
  have l1: "lookup (snd ?s1) p = lookup st p"
    using fold_get_pending_other[OF opre, of env mx acc "([], st)"] by simp
  have c1: "get_content (snd ?s1) p = get_content st p" using l1 by (simp add: get_content_def)
  have r1: "reached mx (fst ?s1) = reached mx (List.map_filter (deliver env acc st) pre)"
    by (simp add: m1 reached_take_max)
  have bp: "?b \<noteq> p"
  proof
    assume "?b = p"
    then have "get_flags ?b = get_flags p" by simp
    then show False using nb by (metis get_flags_with_flags in_set_conv_decomp set_remdups set_sort)
  qed
  have fin: "lookup (snd (fold ?step (pre @ p # post) ([], st))) x = lookup (snd ?s2) x"
    if "x = p \<or> x = ?b" for x
  proof -
    have "\<forall>q\<in>set post. ordinal q \<noteq> ordinal x" using that opost opost' by metis
    from fold_get_pending_other[OF this, of env mx acc ?s2] show ?thesis by simp
  qed
  obtain msgs s1 where s1: "?s1 = (msgs, s1)" by (cases ?s1)
  show ?thesis
  proof (cases "reached mx (List.map_filter (deliver env acc st) pre)")
    case True
    then have "?s2 = ?s1" using r1 s1 by (simp add: get_pending_step_simps)
    then show ?thesis using fin[of p] l1 True by simp
  next
    case False
    then have "snd ?s2 = add_flags p BROKEN (snd ?s1)"
      using r1 s1 c1 un by (simp add: get_pending_step_simps)
    moreover obtain f where "lookup st p = Some f" using ex by blast
    ultimately have "lookup (snd ?s2) p = None" "lookup (snd ?s2) ?b = lookup st p"
      using l1 bp by (simp_all add: add_flags_eq lookup_rename)
    then show ?thesis using fin[of p] fin[of ?b] False by simp
  qed
qed

lemma split_at_member:
  assumes "p \<in> set xs"
  shows "xs = takeWhile (\<lambda>q. q \<noteq> p) xs @ p # tl (dropWhile (\<lambda>q. q \<noteq> p) xs)"
proof -
  have "dropWhile (\<lambda>q. q \<noteq> p) xs \<noteq> []" using assms by (simp add: dropWhile_eq_Nil_conv)
  moreover have "hd (dropWhile (\<lambda>q. q \<noteq> p) xs) = p"
    using hd_dropWhile[OF calculation] by simp
  ultimately have "dropWhile (\<lambda>q. q \<noteq> p) xs = p # tl (dropWhile (\<lambda>q. q \<noteq> p) xs)"
    by (metis list.collapse)
  then show ?thesis by (metis takeWhile_dropWhile_id)
qed

lemma get_pending_undecodable:
  assumes w: "wf st"
    and mem: "p \<in> set (drop (get_pending_offset st) (unflagged st))"
    and un: "loads env (get_content st p) = None"
  shows "lookup (snd (get_pending_messages env mx st)) p
           = (if reached mx (List.map_filter (deliver env (get_accepted_types st) st)
                 (takeWhile (\<lambda>q. q \<noteq> p) (drop (get_pending_offset st) (unflagged st))))
              then lookup st p else None)
       \<and> (\<not> reached mx (List.map_filter (deliver env (get_accepted_types st) st)
                 (takeWhile (\<lambda>q. q \<noteq> p) (drop (get_pending_offset st) (unflagged st)))) \<longrightarrow>
            lookup (snd (get_pending_messages env mx st))
                   (with_flags p (get_flags p @ [BROKEN])) = lookup st p)"
proof -
  let ?pending = "drop (get_pending_offset st) (unflagged st)"
  let ?pre = "takeWhile (\<lambda>q. q \<noteq> p) ?pending"
  let ?post = "tl (dropWhile (\<lambda>q. q \<noteq> p) ?pending)"
  have sp: "?pending = ?pre @ p # ?post" by (rule split_at_member[OF mem])
  have "distinct (map ordinal ?pending)"
    using unflagged_ordinals[OF w] by (simp add: drop_map[symmetric] distinct_drop)
  then have d: "distinct (map ordinal (?pre @ p # ?post))" using sp by simp
  have pu: "p \<in> set (unflagged st)" using mem in_set_dropD by metis
  have ex: "lookup st p \<noteq> None" using pu by (simp add: unflagged_def set_walk_list)
  have nb: "BROKEN \<notin> set (get_flags p)" using unflagged_flags[OF pu] by simp
  note f = fold_get_pending_undecodable[OF d un ex nb, of mx "get_accepted_types st"]
  have "get_pending_messages env mx st
      = fold (get_pending_step env mx (get_accepted_types st)) (?pre @ p # ?post) ([], st)"
    using get_pending_fold[OF w, of env mx] sp by simp
  then show ?thesis using f by simp
qed

lemma get_pending_skips_undecodable:
  assumes "wf st" "loads env (get_content st p) = None"
  shows "fst (get_pending_messages env mx st)
     = take_max mx 0 (List.map_filter (deliver env (get_accepted_types st) st)
         (filter (\<lambda>q. q \<noteq> p) (drop (get_pending_offset st) (unflagged st))))"
proof -
  have "deliver env (get_accepted_types st) st p = None" using assms(2) by (simp add: deliver_def)
  then show ?thesis by (simp add: get_pending_messages_fst[OF assms(1)] map_filter_skip)
qed

lemma map_of_set_contents:
  "map_of (map (\<lambda>e. (fst e, (snd e)\<lparr>content := g (fst e)\<rparr>)) xs) p
     = map_option (\<lambda>f. f\<lparr>content := g p\<rparr>) (map_of xs p)"
  by (induction xs) auto

lemma lookup_set_contents:
  "lookup (set_contents g st) p = map_option (\<lambda>f. f\<lparr>content := g p\<rparr>) (lookup st p)"
  by (simp add: lookup_def set_contents_def map_of_set_contents)

lemma stat_ino_set_contents [simp]: "stat_ino (set_contents g st) p = stat_ino st p"
  by (simp add: stat_ino_def lookup_set_contents option.map_comp comp_def)

lemma listdir_set_contents [simp]: "listdir (set_contents g st) d = listdir st d"
  by (simp add: listdir_def set_contents_def filter_map comp_def)

lemma is_pending_set_contents: "is_pending (set_contents g st) message_id = is_pending st message_id"
proof -
  have 1: "get_sorted_dirs (set_contents g st) = get_sorted_dirs st"
    by (simp add: get_sorted_dirs_def set_contents_def)
  have 2: "get_sorted_filenames (set_contents g st) = get_sorted_filenames st"
    by (simp add: get_sorted_filenames_def fun_eq_iff)
  have 3: "get_pending_offset (set_contents g st) = get_pending_offset st"
    by (simp add: get_pending_offset_def set_contents_def)
  have 4: "is_pending_step (set_contents g st) = is_pending_step st"
    by (simp add: is_pending_step_def fun_eq_iff)
  show ?thesis by (simp add: is_pending_def walk_messages_def 1 2 3 4)
qed




end
